theory Spec2Isabelle
  imports Complex_Main
begin

section \<open>Adaptive feedback-aware Dijkstra (src/adaptive_dijkstra.py)\<close>

text \<open>
  A shallow embedding of the class \<open>AdaptiveDijkstra\<close>. Python floats are modelled as
  real numbers, extended by one value for \<open>float('inf')\<close> where the source uses it
  (the cost table); Python integers are \<open>int\<close>. Dictionaries whose key set matters for
  the control flow (the cost and parent tables) are association lists in insertion
  order; the edge-history store is a map from the formatted key string to a record.
  A \<open>KeyError\<close> or \<open>ZeroDivisionError\<close> of the source is a value of type \<open>error\<close>.
  The class \<open>RoadGraph\<close> is not part of the sources: the graph is a parameter that
  gives the keys of \<open>graph.nodes\<close> and the function \<open>get_neighbors\<close>.
\<close>

subsection \<open>Data model\<close>

type_synonym node = int

datatype error = KeyError node | ZeroDivisionError

text \<open>A Python float that may be \<open>float('inf')\<close>.\<close>

datatype pyfloat = Fin real | PInf

fun fadd :: "pyfloat \<Rightarrow> real \<Rightarrow> pyfloat" where
  "fadd (Fin a) b = Fin (a + b)"
| "fadd PInf b = PInf"

fun fless :: "pyfloat \<Rightarrow> pyfloat \<Rightarrow> bool" where
  "fless (Fin a) (Fin b) = (a < b)"
| "fless (Fin a) PInf = True"
| "fless PInf b = False"

text \<open>The metadata dictionary of an edge; both keys are read with \<open>.get(key, 1.0)\<close>.\<close>

record metadata =
  traffic_factor :: "real option"
  quality :: "real option"

type_synonym edge = "node \<times> real \<times> metadata"

record road_graph =
  nodes :: "node list"
  get_neighbors :: "node \<Rightarrow> edge list"

text \<open>One value of the dictionary \<open>edge_history\<close>.\<close>

record edge_record =
  usage_count :: int
  average_delay :: real
  failure_rate :: real
  total_delay :: real
  total_failures :: int

type_synonym history = "string \<rightharpoonup> edge_record"

record stats =
  nodes_explored :: nat
  edges_examined :: nat
  path_length :: nat
  history_influenced :: nat
  explored_edges :: "(node \<times> node) list"

definition HISTORICAL_WEIGHT :: real where
  "HISTORICAL_WEIGHT = 3 / 10"

definition DECAY_FACTOR :: real where
  "DECAY_FACTOR = 95 / 100"

definition MIN_SAMPLES :: int where
  "MIN_SAMPLES = 3"

subsection \<open>The edge key \<open>f"{from_node}-{to_node}"\<close>\<close>

definition digit_char :: "nat \<Rightarrow> char" where
  "digit_char d = ''0123456789'' ! d"

function str_nat :: "nat \<Rightarrow> string" where
  "str_nat n = (if n < 10 then [digit_char n] else str_nat (n div 10) @ [digit_char (n mod 10)])"
  by pat_completeness auto
termination
  by (relation "measure (\<lambda>n. n)") auto

declare str_nat.simps [simp del]

definition str_int :: "int \<Rightarrow> string" where
  "str_int i = (if i < 0 then CHR ''-'' # str_nat (nat (- i)) else str_nat (nat i))"

definition edge_key :: "node \<Rightarrow> node \<Rightarrow> string" where
  "edge_key from_node to_node = str_int from_node @ ''-'' @ str_int to_node"

subsection \<open>\<open>_calculate_adaptive_cost\<close>\<close>

definition vehicle_penalty :: "string \<Rightarrow> real \<Rightarrow> real" where
  "vehicle_penalty vehicle_type road_quality =
     (if road_quality \<ge> 85 / 100 then (if vehicle_type = ''boda'' then 1 else 1)
      else if road_quality \<ge> 75 / 100 then (if vehicle_type = ''boda'' then 11 / 10 else 13 / 10)
      else (if vehicle_type = ''boda'' then 13 / 10 else 18 / 10))"

definition static_cost :: "string \<Rightarrow> real \<Rightarrow> metadata \<Rightarrow> real" where
  "static_cost vehicle_type base_distance md =
     (let tf = (case traffic_factor md of None \<Rightarrow> 1 | Some t \<Rightarrow> t);
          road_quality = (case quality md of None \<Rightarrow> 1 | Some q \<Rightarrow> q)
      in base_distance * tf * vehicle_penalty vehicle_type road_quality)"

definition historical_penalty :: "edge_record \<Rightarrow> real" where
  "historical_penalty h =
     (let avg_delay = average_delay h;
          fr = failure_rate h;
          confidence = min (real_of_int (usage_count h) / 10) 1
      in 1 + HISTORICAL_WEIGHT * confidence * (avg_delay + fr * 2))"

text \<open>
  The method reads \<open>self.vehicle_type\<close> and \<open>self.edge_history\<close> and increments
  \<open>self.stats['history_influenced']\<close>; the model takes the first two as arguments and
  returns the cost together with the updated statistics.
\<close>

definition calculate_adaptive_cost ::
  "string \<Rightarrow> history \<Rightarrow> stats \<Rightarrow> node \<Rightarrow> node \<Rightarrow> real \<Rightarrow> metadata \<Rightarrow> real \<times> stats" where
  "calculate_adaptive_cost vehicle_type edge_history st from_node to_node base_distance md =
     (let base_cost = static_cost vehicle_type base_distance md in
      case edge_history (edge_key from_node to_node) of
        None \<Rightarrow> (base_cost, st)
      | Some h \<Rightarrow>
          if usage_count h \<ge> MIN_SAMPLES
          then (base_cost * historical_penalty h,
                st\<lparr>history_influenced := history_influenced st + 1\<rparr>)
          else (base_cost, st))"

subsection \<open>\<open>record_route_feedback\<close>\<close>

text \<open>Lines 263-264: the delay factor, clamped to be non-negative.\<close>

definition feedback_delay :: "real \<Rightarrow> real \<Rightarrow> real" where
  "feedback_delay actual_time expected_time =
     (let delay = (if expected_time > 0 then (actual_time - expected_time) / expected_time else 0)
      in max 0 delay)"

definition new_record :: edge_record where
  "new_record = \<lparr>usage_count = 0, average_delay = 0, failure_rate = 0,
                 total_delay = 0, total_failures = 0\<rparr>"

definition decay_of :: "int \<Rightarrow> real" where
  "decay_of new_count = DECAY_FACTOR powr (1 / real_of_int (new_count + 1))"

text \<open>
  The body of the loop for one record. \<open>1 / (new_count + 1)\<close> and the two divisions by
  \<open>new_count\<close> raise \<open>ZeroDivisionError\<close> in Python when the divisor is zero.
\<close>

definition update_record :: "real \<Rightarrow> bool \<Rightarrow> edge_record \<Rightarrow> error + edge_record" where
  "update_record delay success h =
     (let old_count = usage_count h;
          new_count = old_count + 1
      in if new_count + 1 = 0 then Inl ZeroDivisionError
         else let decay = decay_of new_count;
                  td = total_delay h * decay + delay
              in if new_count = 0 then Inl ZeroDivisionError
                 else let tf = (if \<not> success then total_failures h + 1 else total_failures h)
                      in Inr (h\<lparr>total_delay := td,
                                average_delay := td / real_of_int new_count,
                                total_failures := tf,
                                failure_rate := real_of_int tf / real_of_int new_count,
                                usage_count := new_count\<rparr>))"

definition update_edge :: "real \<Rightarrow> bool \<Rightarrow> history \<Rightarrow> node \<Rightarrow> node \<Rightarrow> error + history" where
  "update_edge delay success edge_history from_node to_node =
     (let k = edge_key from_node to_node;
          h = (case edge_history k of None \<Rightarrow> new_record | Some r \<Rightarrow> r)
      in case update_record delay success h of
           Inl e \<Rightarrow> Inl e
         | Inr h' \<Rightarrow> Inr (edge_history(k \<mapsto> h')))"

text \<open>The loop \<open>for i in range(len(path) - 1)\<close> over consecutive nodes of the path.\<close>

fun feedback_loop :: "real \<Rightarrow> bool \<Rightarrow> history \<Rightarrow> node list \<Rightarrow> error + history" where
  "feedback_loop delay success edge_history (u # v # rest) =
     (case update_edge delay success edge_history u v of
        Inl e \<Rightarrow> Inl e
      | Inr h' \<Rightarrow> feedback_loop delay success h' (v # rest))"
| "feedback_loop delay success edge_history path = Inr edge_history"

definition record_route_feedback ::
  "history \<Rightarrow> node list \<Rightarrow> real \<Rightarrow> real \<Rightarrow> bool \<Rightarrow> error + history" where
  "record_route_feedback edge_history path actual_time expected_time success =
     feedback_loop (feedback_delay actual_time expected_time) success edge_history path"

subsection \<open>Predicates used to state the properties\<close>

text \<open>The record that an update starts from: the stored one, or the fresh one.\<close>

definition prior_record :: "history \<Rightarrow> string \<Rightarrow> edge_record" where
  "prior_record edge_history k = (case edge_history k of None \<Rightarrow> new_record | Some r \<Rightarrow> r)"

text \<open>The keys of the consecutive edges of a path, in the order the loop visits them.\<close>

fun path_keys :: "node list \<Rightarrow> string list" where
  "path_keys (u # v # rest) = edge_key u v # path_keys (v # rest)"
| "path_keys path = []"

text \<open>Section 3 of the specification: the derived fields of a stored record are up to date.\<close>

definition record_consistent :: "edge_record \<Rightarrow> bool" where
  "record_consistent h \<longleftrightarrow>
     1 \<le> usage_count h
     \<and> average_delay h = total_delay h / real_of_int (usage_count h)
     \<and> failure_rate h = real_of_int (total_failures h) / real_of_int (usage_count h)
     \<and> 0 \<le> total_failures h \<and> total_failures h \<le> usage_count h"

definition store_consistent :: "history \<Rightarrow> bool" where
  "store_consistent edge_history \<longleftrightarrow> (\<forall>k h. edge_history k = Some h \<longrightarrow> record_consistent h)"

definition counts_nonneg :: "history \<Rightarrow> bool" where
  "counts_nonneg edge_history \<longleftrightarrow> (\<forall>k h. edge_history k = Some h \<longrightarrow> 0 \<le> usage_count h)"

text \<open>
  Section 4.3 of the specification, one edge update in its words: the store \<open>h'\<close> is
  \<open>h\<close> with the record of key \<open>k\<close> replaced, where \<open>new_count = old_count + 1\<close>,
  \<open>decay = decay_factor ^ (1 / (new_count + 1))\<close>,
  \<open>total_delay' = total_delay * decay + delay\<close> and
  \<open>average_delay' = total_delay' / new_count\<close>. For a key with no record the update
  starts from the fresh record, whose \<open>total_delay\<close> is 0.
\<close>

definition decayed_update :: "real \<Rightarrow> history \<Rightarrow> string \<Rightarrow> history \<Rightarrow> bool" where
  "decayed_update delay h k h' \<longleftrightarrow>
     (\<exists>r'. h' = h(k \<mapsto> r')
        \<and> usage_count r' = usage_count (prior_record h k) + 1
        \<and> total_delay r' =
            total_delay (prior_record h k)
              * DECAY_FACTOR powr (1 / real_of_int (usage_count r' + 1)) + delay
        \<and> average_delay r' = total_delay r' / real_of_int (usage_count r')
        \<and> (h k = None \<longrightarrow> usage_count r' = 1 \<and> total_delay r' = delay))"

text \<open>Concrete data of the scenario of section 8: free-flow metadata and fresh statistics.\<close>

definition line_md :: metadata where
  "line_md = \<lparr>traffic_factor = Some 1, quality = Some 1\<rparr>"

definition stats0 :: stats where
  "stats0 = \<lparr>nodes_explored = 0, edges_examined = 0, path_length = 0,
              history_influenced = 0, explored_edges = []\<rparr>"



subsection \<open>\<open>find_optimal_path\<close>\<close>

text \<open>
  \<open>d[k] = v\<close> on a dictionary kept in insertion order: an existing key keeps its place,
  a new key goes to the end.
\<close>

fun dict_set :: "'k \<Rightarrow> 'v \<Rightarrow> ('k \<times> 'v) list \<Rightarrow> ('k \<times> 'v) list" where
  "dict_set k v [] = [(k, v)]"
| "dict_set k v (p # ps) = (if fst p = k then (k, v) # ps else p # dict_set k v ps)"

text \<open>
  The priority queue holds tuples \<open>(cost, node_id)\<close>; Python compares them
  lexicographically. \<open>heapq.heappop\<close> removes the least tuple; the model keeps the
  queue as the list of its entries and leaves the layout of the binary heap out.
\<close>

type_synonym entry = "pyfloat \<times> node"

fun entry_less :: "entry \<Rightarrow> entry \<Rightarrow> bool" where
  "entry_less (c1, n1) (c2, n2) = (if c1 = c2 then n1 < n2 else fless c1 c2)"

fun heap_min :: "entry \<Rightarrow> entry list \<Rightarrow> entry" where
  "heap_min m [] = m"
| "heap_min m (x # xs) = heap_min (if entry_less x m then x else m) xs"

record search_state =
  costs :: "(node \<times> pyfloat) list"
  parents :: "(node \<times> node option) list"
  pq :: "entry list"
  visited :: "node set"
  run_stats :: stats

text \<open>The loop \<open>for neighbor, base_dist, metadata in self.graph.get_neighbors(current_node)\<close>.\<close>

fun explore_neighbors ::
  "string \<Rightarrow> history \<Rightarrow> node \<Rightarrow> edge list \<Rightarrow> search_state \<Rightarrow> error + search_state" where
  "explore_neighbors vehicle_type edge_history current_node [] s = Inr s"
| "explore_neighbors vehicle_type edge_history current_node ((neighbor, base_dist, md) # rest) s =
     (let st1 = (run_stats s)\<lparr>edges_examined := edges_examined (run_stats s) + 1,
                                explored_edges := explored_edges (run_stats s) @ [(current_node, neighbor)]\<rparr>
      in if neighbor \<in> visited s
         then explore_neighbors vehicle_type edge_history current_node rest (s\<lparr>run_stats := st1\<rparr>)
         else let ec = calculate_adaptive_cost vehicle_type edge_history st1
                         current_node neighbor base_dist md
              in case map_of (costs s) current_node of
                   None \<Rightarrow> Inl (KeyError current_node)
                 | Some c \<Rightarrow>
                     let new_cost = fadd c (fst ec)
                     in case map_of (costs s) neighbor of
                          None \<Rightarrow> Inl (KeyError neighbor)
                        | Some cn \<Rightarrow>
                            if fless new_cost cn
                            then explore_neighbors vehicle_type edge_history current_node rest
                                   (s\<lparr>costs := dict_set neighbor new_cost (costs s),
                                      parents := dict_set neighbor (Some current_node) (parents s),
                                      pq := pq s @ [(new_cost, neighbor)],
                                      run_stats := snd ec\<rparr>)
                            else explore_neighbors vehicle_type edge_history current_node rest
                                   (s\<lparr>run_stats := snd ec\<rparr>))"

lemma heap_min_in: "heap_min m xs \<in> set (m # xs)"
  by (induction xs arbitrary: m) auto

lemma dict_set_keys: "k \<in> fst ` set ps \<Longrightarrow> fst ` set (dict_set k v ps) = fst ` set ps"
  by (induction ps) auto

lemma map_of_keys: "map_of ps k = Some v \<Longrightarrow> k \<in> fst ` set ps"
  by (induction ps) (auto split: if_splits)

lemma explore_neighbors_frame:
  "explore_neighbors vt h cur es s = Inr s' \<Longrightarrow>
     fst ` set (costs s') = fst ` set (costs s)
     \<and> snd ` set (pq s') \<subseteq> snd ` set (pq s) \<union> fst ` set (costs s)
     \<and> visited s' = visited s"
proof (induction es arbitrary: s)
  case Nil
  then show ?case by simp
next
  case (Cons e es)
  obtain nb bd md where e: "e = (nb, bd, md)" by (cases e) auto
  show ?case
  proof (cases "nb \<in> visited s")
    case True
    then have "explore_neighbors vt h cur es
        (s\<lparr>run_stats := (run_stats s)\<lparr>edges_examined := edges_examined (run_stats s) + 1,
             explored_edges := explored_edges (run_stats s) @ [(cur, nb)]\<rparr>\<rparr>) = Inr s'"
      using Cons.prems e by (simp add: Let_def)
    from Cons.IH [OF this] show ?thesis by simp
  next
    case False
    obtain c where c: "map_of (costs s) cur = Some c"
      using Cons.prems e False by (auto simp: Let_def split: option.splits)
    obtain cn where cn: "map_of (costs s) nb = Some cn"
      using Cons.prems e False c by (auto simp: Let_def split: option.splits)
    have k: "nb \<in> fst ` set (costs s)" using map_of_keys [OF cn] .
    let ?ec = "calculate_adaptive_cost vt h ((run_stats s)\<lparr>edges_examined := edges_examined (run_stats s) + 1,
                                explored_edges := explored_edges (run_stats s) @ [(cur, nb)]\<rparr>) cur nb bd md"
    show ?thesis
    proof (cases "fless (fadd c (fst ?ec)) cn")
      case True
      let ?s1 = "s\<lparr>costs := dict_set nb (fadd c (fst ?ec)) (costs s),
                    parents := dict_set nb (Some cur) (parents s),
                    pq := pq s @ [(fadd c (fst ?ec), nb)],
                    run_stats := snd ?ec\<rparr>"
      have "explore_neighbors vt h cur es ?s1 = Inr s'"
        using Cons.prems e False c cn True by (simp add: Let_def)
      from Cons.IH [OF this] show ?thesis
        using k by (auto simp: dict_set_keys)
    next
      case nl: False
      have "explore_neighbors vt h cur es (s\<lparr>run_stats := snd ?ec\<rparr>) = Inr s'"
        using Cons.prems e False c cn nl by (simp add: Let_def)
      from Cons.IH [OF this] show ?thesis by simp
    qed
  qed
qed

text \<open>The loop \<open>while pq\<close>, up to the \<open>break\<close> at the goal.\<close>

function search_loop ::
  "road_graph \<Rightarrow> string \<Rightarrow> history \<Rightarrow> node \<Rightarrow> search_state \<Rightarrow> error + search_state" where
  "search_loop g vehicle_type edge_history end_node s =
     (case pq s of
        [] \<Rightarrow> Inr s
      | x # xs \<Rightarrow>
          let current_node = snd (heap_min x xs);
              s1 = s\<lparr>pq := remove1 (heap_min x xs) (pq s)\<rparr>
          in if current_node \<in> visited s1
             then search_loop g vehicle_type edge_history end_node s1
             else let s2 = s1\<lparr>visited := insert current_node (visited s1),
                               run_stats := (run_stats s1)\<lparr>nodes_explored :=
                                 nodes_explored (run_stats s1) + 1\<rparr>\<rparr>
                  in if current_node = end_node then Inr s2
                     else case explore_neighbors vehicle_type edge_history current_node
                                 (get_neighbors g current_node) s2 of
                            Inl e \<Rightarrow> Inl e
                          | Inr s3 \<Rightarrow> search_loop g vehicle_type edge_history end_node s3)"
  by pat_completeness auto

definition frontier :: "search_state \<Rightarrow> node set" where
  "frontier s = (fst ` set (costs s) \<union> snd ` set (pq s)) - visited s"

lemma finite_frontier: "finite (frontier s)"
  by (simp add: frontier_def)

termination search_loop
proof (relation "inv_image (less_than <*lex*> less_than)
         (\<lambda>(g, vt, h, e, s). (card (frontier s), length (pq s)))", goal_cases)
  case 1
  show ?case by (intro wf_inv_image wf_lex_prod wf_less_than)
next
  case (2 g vt h e s x xs cur s1)
  have m: "heap_min x xs \<in> set (pq s)" using 2(1) heap_min_in [of x xs] by simp
  have "snd ` set (remove1 (heap_min x xs) (pq s)) \<subseteq> snd ` set (pq s)"
    using set_remove1_subset [of "heap_min x xs" "pq s"] by blast
  then have "frontier s1 \<subseteq> frontier s"
    using 2(3) by (auto simp: frontier_def)
  then have "card (frontier s1) \<le> card (frontier s)"
    by (rule card_mono [OF finite_frontier])
  moreover have "length (pq s1) < length (pq s)"
    using m 2(3) by (simp add: length_remove1) (cases "pq s"; simp)
  ultimately show ?case by auto
next
  case (3 g vt h e s x xs cur s1 s2 s3)
  have m: "heap_min x xs \<in> set (pq s)" using 3(1) heap_min_in [of x xs] by simp
  have sub: "snd ` set (remove1 (heap_min x xs) (pq s)) \<subseteq> snd ` set (pq s)"
    using set_remove1_subset [of "heap_min x xs" "pq s"] by blast
  note fr = explore_neighbors_frame [OF 3(7)]
  have c3: "fst ` set (costs s3) = fst ` set (costs s)"
    using fr 3(3,5) by simp
  have v3: "visited s3 = insert cur (visited s)"
    using fr 3(3,5) by simp
  have "snd ` set (pq s3)
          \<subseteq> snd ` set (remove1 (heap_min x xs) (pq s)) \<union> fst ` set (costs s)"
    using fr 3(3,5) by simp
  then have p3: "snd ` set (pq s3) \<subseteq> snd ` set (pq s) \<union> fst ` set (costs s)"
    using sub by blast
  have cur: "cur \<in> frontier s"
    using m 3(2,3,4) by (force simp: frontier_def)
  have "cur \<notin> frontier s3"
    unfolding frontier_def v3 by simp
  moreover have "frontier s3 \<subseteq> frontier s"
    unfolding frontier_def c3 v3 using p3 by blast
  ultimately have "frontier s3 \<subset> frontier s" using cur by blast
  then have "card (frontier s3) < card (frontier s)"
    by (rule psubset_card_mono [OF finite_frontier])
  then show ?case by simp
qed

declare search_loop.simps [simp del]

text \<open>
  \<open>_reconstruct_path\<close>. The loop \<open>while current is not None\<close> follows the parent
  links; on a table with a cycle it would not return, which is the value \<open>None\<close>.
\<close>

partial_function (option) follow_parents ::
  "(node \<times> node option) list \<Rightarrow> node option \<Rightarrow> node list \<Rightarrow> (error + node list) option" where
  "follow_parents ps current path =
     (case current of
        None \<Rightarrow> Some (Inr path)
      | Some c \<Rightarrow>
          (case map_of ps c of
             None \<Rightarrow> Some (Inl (KeyError c))
           | Some p \<Rightarrow> follow_parents ps p (path @ [c])))"

definition reconstruct_path ::
  "(node \<times> node option) list \<Rightarrow> node \<Rightarrow> node \<Rightarrow> (error + node list) option" where
  "reconstruct_path ps start end_node =
     (case map_of ps end_node of
        None \<Rightarrow> Some (Inl (KeyError end_node))
      | Some pe \<Rightarrow>
          if pe = None \<and> end_node \<noteq> start then Some (Inr [])
          else (case follow_parents ps (Some end_node) [] of
                  None \<Rightarrow> None
                | Some (Inl e) \<Rightarrow> Some (Inl e)
                | Some (Inr path) \<Rightarrow> Some (Inr (rev path))))"

definition initial_state :: "road_graph \<Rightarrow> node \<Rightarrow> search_state" where
  "initial_state g start =
     \<lparr>costs = dict_set start (Fin 0) (map (\<lambda>node_id. (node_id, PInf)) (nodes g)),
      parents = map (\<lambda>node_id. (node_id, None)) (nodes g),
      pq = [(Fin 0, start)],
      visited = {},
      run_stats = stats0\<rparr>"

text \<open>
  The result is \<open>None\<close> when the call does not return, \<open>Some (Inl e)\<close> when it raises
  \<open>e\<close>, and \<open>Some (Inr (path, total_cost, stats))\<close> when it returns.
\<close>

definition find_optimal_path ::
  "road_graph \<Rightarrow> string \<Rightarrow> history \<Rightarrow> node \<Rightarrow> node
     \<Rightarrow> (error + node list \<times> pyfloat \<times> stats) option" where
  "find_optimal_path g vehicle_type edge_history start end_node =
     (case search_loop g vehicle_type edge_history end_node (initial_state g start) of
        Inl e \<Rightarrow> Some (Inl e)
      | Inr s \<Rightarrow>
          (case reconstruct_path (parents s) start end_node of
             None \<Rightarrow> None
           | Some (Inl e) \<Rightarrow> Some (Inl e)
           | Some (Inr path) \<Rightarrow>
               (case map_of (costs s) end_node of
                  None \<Rightarrow> Some (Inl (KeyError end_node))
                | Some total_cost \<Rightarrow>
                    if path \<noteq> []
                    then Some (Inr (path, total_cost,
                                    (run_stats s)\<lparr>path_length := length path\<rparr>))
                    else Some (Inr (path, PInf, run_stats s)))))"

text \<open>The line graph \<open>0 \<rightarrow> 1 \<rightarrow> 2\<close> of the scenario of section 8.\<close>

definition line_graph :: road_graph where
  "line_graph =
     \<lparr>nodes = [0, 1, 2],
      get_neighbors = (\<lambda>u. if u = 0 then [(1, 10, line_md)]
                           else if u = 1 then [(2, 10, line_md)] else [])\<rparr>"

text \<open>The state after the extraction of the least entry, and after settling its node.\<close>

definition popped :: "search_state \<Rightarrow> entry \<Rightarrow> entry list \<Rightarrow> search_state" where
  "popped s x xs = s\<lparr>pq := remove1 (heap_min x xs) (pq s)\<rparr>"

definition settled :: "search_state \<Rightarrow> entry \<Rightarrow> entry list \<Rightarrow> search_state" where
  "settled s x xs =
     s\<lparr>pq := remove1 (heap_min x xs) (pq s),
       visited := insert (snd (heap_min x xs)) (visited s),
       run_stats := (run_stats s)\<lparr>nodes_explored := nodes_explored (run_stats s) + 1\<rparr>\<rparr>"

text \<open>What the search keeps true of its tables, whatever the graph gives.\<close>

definition end_guard :: "road_graph \<Rightarrow> node \<Rightarrow> search_state \<Rightarrow> bool" where
  "end_guard g start s \<longleftrightarrow>
     fst ` set (costs s) \<subseteq> insert start (set (nodes g))
     \<and> fst ` set (parents s) \<subseteq> set (nodes g)
     \<and> (start \<in> visited s \<or> snd ` set (pq s) \<subseteq> {start})"


text \<open>The directed edges that \<open>get_neighbors\<close> enumerates, and reachability along them.\<close>

definition edge_rel :: "road_graph \<Rightarrow> (node \<times> node) set" where
  "edge_rel g = {(u, v). v \<in> fst ` set (get_neighbors g u)}"

text \<open>Every neighbour that the graph reports is one of its nodes.\<close>

definition edges_closed :: "road_graph \<Rightarrow> bool" where
  "edges_closed g \<longleftrightarrow> (\<forall>u. fst ` set (get_neighbors g u) \<subseteq> set (nodes g))"

definition goal_guard :: "road_graph \<Rightarrow> node \<Rightarrow> node \<Rightarrow> search_state \<Rightarrow> bool" where
  "goal_guard g start end_node s \<longleftrightarrow>
     insert start (set (nodes g)) \<subseteq> fst ` set (costs s)
     \<and> snd ` set (pq s) \<subseteq> {n. (start, n) \<in> (edge_rel g)\<^sup>*}
     \<and> map_of (parents s) end_node = Some None"

section \<open>The adaptive edge cost\<close>


lemma vehicle_penalty_pos: "1 \<le> vehicle_penalty vt q"
  by (simp add: vehicle_penalty_def)

lemma static_cost_nonneg:
  assumes "0 \<le> bd" and "case traffic_factor md of None \<Rightarrow> True | Some t \<Rightarrow> 0 \<le> t"
  shows "0 \<le> static_cost vt bd md"
proof -
  have "0 \<le> vehicle_penalty vt q" for q
    using vehicle_penalty_pos [of vt q] by linarith
  then show ?thesis
    using assms by (simp add: static_cost_def Let_def split: option.splits)
qed

lemma historical_penalty_ge_1:
  assumes "MIN_SAMPLES \<le> usage_count h" and "0 \<le> average_delay h" and "0 \<le> failure_rate h"
  shows "1 \<le> historical_penalty h"
proof -
  have "0 \<le> min (real_of_int (usage_count h) / 10) 1"
    using assms(1) by (simp add: MIN_SAMPLES_def)
  then have "0 \<le> HISTORICAL_WEIGHT * min (real_of_int (usage_count h) / 10) 1 * (average_delay h + failure_rate h * 2)"
    using assms(2,3) by (simp add: HISTORICAL_WEIGHT_def)
  then show ?thesis
    by (simp add: historical_penalty_def Let_def)
qed

text \<open>
  C2. For an edge of the data model (\<open>base_distance \<ge> 0\<close>, and a traffic factor that is
  non-negative where the metadata gives one) and a history whose records have
  \<open>average_delay \<ge> 0\<close> and \<open>failure_rate\<close> in \<open>[0, 1]\<close>, the adaptive cost is at least
  the static cost \<open>base_distance * traffic_factor * vehicle_penalty\<close>, for every vehicle
  class: history never lowers the cost of an edge below its static baseline.
\<close>

theorem adaptive_cost_ge_static:
  assumes "0 \<le> base_distance"
    and "case traffic_factor md of None \<Rightarrow> True | Some t \<Rightarrow> 0 \<le> t"
    and "\<forall>k h. edge_history k = Some h \<longrightarrow>
           0 \<le> average_delay h \<and> 0 \<le> failure_rate h \<and> failure_rate h \<le> 1"
  shows "static_cost vt base_distance md
           \<le> fst (calculate_adaptive_cost vt edge_history st u v base_distance md)"
proof (cases "edge_history (edge_key u v)")
  case None
  then show ?thesis by (simp add: calculate_adaptive_cost_def)
next
  case (Some h)
  show ?thesis
  proof (cases "MIN_SAMPLES \<le> usage_count h")
    case True
    have "1 \<le> historical_penalty h"
      using historical_penalty_ge_1 [OF True] assms(3) Some by blast
    moreover have "0 \<le> static_cost vt base_distance md"
      using static_cost_nonneg [OF assms(1,2)] .
    ultimately have "static_cost vt base_distance md * 1
                      \<le> static_cost vt base_distance md * historical_penalty h"
      by (rule mult_left_mono)
    then show ?thesis using Some True by (simp add: calculate_adaptive_cost_def)
  next
    case False
    then show ?thesis using Some by (simp add: calculate_adaptive_cost_def)
  qed
qed

theorem adaptive_cost_ge_static_witness:
  "static_cost ''boda'' 10 line_md
     \<le> fst (calculate_adaptive_cost ''boda''
              [edge_key 0 1 \<mapsto> \<lparr>usage_count = 3, average_delay = 1 / 2, failure_rate = 0,
                                total_delay = 3 / 2, total_failures = 0\<rparr>]
              stats0 0 1 10 line_md)"
proof -
  have a: "(0::real) \<le> 10" by simp
  have b: "case traffic_factor line_md of None \<Rightarrow> True | Some t \<Rightarrow> 0 \<le> t"
    by (simp add: line_md_def)
  have c: "\<forall>k h. [edge_key 0 1 \<mapsto> \<lparr>usage_count = 3, average_delay = 1 / 2, failure_rate = 0,
                                   total_delay = 3 / 2, total_failures = 0\<rparr>] k = Some h \<longrightarrow>
             0 \<le> average_delay h \<and> 0 \<le> failure_rate h \<and> failure_rate h \<le> 1"
    by (auto split: if_splits)
  show ?thesis using adaptive_cost_ge_static [OF a b c] .
qed

lemma edge_key_0_1: "edge_key 0 1 = ''0-1''"
  by (simp add: edge_key_def str_int_def str_nat.simps digit_char_def)

lemma edge_key_1_2: "edge_key 1 2 = ''1-2''"
  by (simp add: edge_key_def str_int_def str_nat.simps digit_char_def)

text \<open>
  C3. When the key of the edge is absent from the history, or its record has a
  \<open>usage_count\<close> below \<open>MIN_SAMPLES\<close> (which is 3), \<open>_calculate_adaptive_cost\<close> returns
  exactly the static cost, whatever the record's \<open>average_delay\<close> and \<open>failure_rate\<close>
  are, and leaves the statistics (so the history-influenced counter) unchanged.
\<close>

theorem low_confidence_cost_is_static:
  assumes "edge_history (edge_key u v) = None
           \<or> (\<exists>h. edge_history (edge_key u v) = Some h \<and> usage_count h < MIN_SAMPLES)"
  shows "calculate_adaptive_cost vt edge_history st u v bd md = (static_cost vt bd md, st)
         \<and> MIN_SAMPLES = 3"
  using assms by (auto simp: calculate_adaptive_cost_def MIN_SAMPLES_def)

theorem low_confidence_cost_is_static_witness:
  "calculate_adaptive_cost ''bajaji''
     [edge_key 0 1 \<mapsto> \<lparr>usage_count = 2, average_delay = 100, failure_rate = 1,
                       total_delay = 200, total_failures = 2\<rparr>]
     stats0 0 1 10 line_md = (static_cost ''bajaji'' 10 line_md, stats0) \<and> MIN_SAMPLES = 3"
  using low_confidence_cost_is_static [of
      "[edge_key 0 1 \<mapsto> \<lparr>usage_count = 2, average_delay = 100, failure_rate = 1,
                         total_delay = 200, total_failures = 2\<rparr>]" 0 1 "''bajaji''" stats0 10 line_md]
  by (simp add: MIN_SAMPLES_def)

section \<open>Feedback ingestion\<close>

lemma record_consistent_rate: "record_consistent h \<Longrightarrow> 0 \<le> failure_rate h \<and> failure_rate h \<le> 1"
  by (simp add: record_consistent_def)

lemma update_record_new:
  "update_record delay success new_record = Inr h' \<Longrightarrow> record_consistent h'"
  by (auto simp: update_record_def new_record_def record_consistent_def Let_def split: if_splits)

lemma update_record_new_ok:
  "\<exists>h'. update_record delay success new_record = Inr h'"
  by (simp add: update_record_def new_record_def Let_def)

lemma update_record_ok:
  assumes "0 \<le> usage_count h"
  shows "\<exists>h'. update_record delay success h = Inr h' \<and> usage_count h' = usage_count h + 1"
  using assms by (simp add: update_record_def Let_def)

lemma update_record_consistent:
  assumes "record_consistent h" and "update_record delay success h = Inr h'"
  shows "record_consistent h'"
  using assms
  by (auto simp: update_record_def record_consistent_def Let_def split: if_splits)

lemma update_record_fail_rate:
  assumes "record_consistent h" and "update_record delay False h = Inr h'"
  shows "failure_rate h \<le> failure_rate h'"
    and "failure_rate h < 1 \<Longrightarrow> failure_rate h < failure_rate h'"
    and "failure_rate h = 1 \<Longrightarrow> failure_rate h' = 1"
proof -
  let ?n = "real_of_int (usage_count h)" and ?f = "real_of_int (total_failures h)"
  have n: "1 \<le> ?n" and fn: "?f \<le> ?n" and r: "failure_rate h = ?f / ?n"
    using assms(1) by (simp_all add: record_consistent_def)
  have r': "failure_rate h' = (?f + 1) / (?n + 1)"
    using assms(2) n by (auto simp: update_record_def Let_def split: if_splits)
  show "failure_rate h \<le> failure_rate h'"
    using n fn unfolding r r' by (simp add: field_simps)
  show "failure_rate h < failure_rate h'" if "failure_rate h < 1"
    using that n fn unfolding r r' by (simp add: field_simps)
  show "failure_rate h' = 1" if "failure_rate h = 1"
    using that n fn unfolding r r' by (simp add: field_simps)
qed

lemma update_record_first_failure:
  assumes "update_record delay False new_record = Inr h'"
  shows "failure_rate h' = 1"
  using assms by (auto simp: update_record_def new_record_def Let_def split: if_splits)

lemma update_edge_eq:
  "update_edge delay success edge_history u v =
     (case update_record delay success (prior_record edge_history (edge_key u v)) of
        Inl e \<Rightarrow> Inl e
      | Inr h' \<Rightarrow> Inr (edge_history(edge_key u v \<mapsto> h')))"
  by (simp add: update_edge_def prior_record_def Let_def)

lemma prior_record_count:
  "counts_nonneg edge_history \<Longrightarrow> 0 \<le> usage_count (prior_record edge_history k)"
  by (auto simp: counts_nonneg_def prior_record_def new_record_def split: option.splits)

lemma update_edge_ok:
  assumes "counts_nonneg edge_history"
  shows "\<exists>h'. update_record delay success (prior_record edge_history (edge_key u v)) = Inr h'
            \<and> update_edge delay success edge_history u v = Inr (edge_history(edge_key u v \<mapsto> h'))
            \<and> counts_nonneg (edge_history(edge_key u v \<mapsto> h'))"
proof -
  obtain h' where h': "update_record delay success (prior_record edge_history (edge_key u v)) = Inr h'"
    and c: "usage_count h' = usage_count (prior_record edge_history (edge_key u v)) + 1"
    using update_record_ok [OF prior_record_count [OF assms]] by blast
  have "0 \<le> usage_count h'"
    using c prior_record_count [OF assms, of "edge_key u v"] by simp
  then have "counts_nonneg (edge_history(edge_key u v \<mapsto> h'))"
    using assms by (auto simp: counts_nonneg_def)
  then show ?thesis using h' by (simp add: update_edge_eq)
qed

lemma feedback_loop_ok:
  "counts_nonneg edge_history \<Longrightarrow>
     \<exists>h'. feedback_loop delay success edge_history path = Inr h' \<and> counts_nonneg h'"
proof (induction delay success edge_history path rule: feedback_loop.induct)
  case (1 delay success edge_history u v rest)
  obtain r where r: "update_edge delay success edge_history u v = Inr (edge_history(edge_key u v \<mapsto> r))"
    and c: "counts_nonneg (edge_history(edge_key u v \<mapsto> r))"
    using update_edge_ok [OF "1.prems"] by blast
  obtain h' where "feedback_loop delay success (edge_history(edge_key u v \<mapsto> r)) (v # rest) = Inr h'"
    and "counts_nonneg h'"
    using "1.IH" [OF r c] by blast
  then show ?case by (simp add: r)
qed simp_all

lemma store_consistent_counts: "store_consistent h \<Longrightarrow> counts_nonneg h"
  unfolding store_consistent_def counts_nonneg_def record_consistent_def
  by (metis order_trans zero_le_one)

lemma prior_record_step_consistent:
  assumes "store_consistent edge_history"
    and "update_record delay success (prior_record edge_history k) = Inr h'"
  shows "record_consistent h'"
proof (cases "edge_history k")
  case None
  then show ?thesis using assms(2) update_record_new by (simp add: prior_record_def)
next
  case (Some r)
  then have "record_consistent r" using assms(1) by (auto simp: store_consistent_def)
  then show ?thesis using assms(2) Some update_record_consistent by (simp add: prior_record_def)
qed

lemma update_edge_consistent:
  assumes "store_consistent edge_history"
    and "update_edge delay success edge_history u v = Inr h'"
  shows "store_consistent h'"
proof -
  obtain r where r: "update_record delay success (prior_record edge_history (edge_key u v)) = Inr r"
    and h': "h' = edge_history(edge_key u v \<mapsto> r)"
    using assms(2) by (auto simp: update_edge_eq split: sum.splits)
  have "record_consistent r"
    using prior_record_step_consistent [OF assms(1) r] .
  then show ?thesis using assms(1) unfolding h' by (auto simp: store_consistent_def)
qed

lemma feedback_loop_consistent:
  "store_consistent edge_history \<Longrightarrow> feedback_loop delay success edge_history path = Inr h'
     \<Longrightarrow> store_consistent h'"
proof (induction delay success edge_history path rule: feedback_loop.induct)
  case (1 delay success edge_history u v rest)
  then show ?case
    by (auto split: sum.splits dest: update_edge_consistent)
qed simp_all

lemma feedback_loop_untouched:
  "feedback_loop delay success edge_history path = Inr h' \<Longrightarrow> k \<notin> set (path_keys path)
     \<Longrightarrow> h' k = edge_history k"
proof (induction delay success edge_history path rule: feedback_loop.induct)
  case (1 delay success edge_history u v rest)
  then show ?case
    by (auto simp: update_edge_eq split: sum.splits)
qed simp_all



lemma decay_base: "0 < DECAY_FACTOR" "DECAY_FACTOR < 1"
  by (simp_all add: DECAY_FACTOR_def)

lemma decay_of_mono:
  assumes "0 \<le> n" and "n \<le> m"
  shows "decay_of n \<le> decay_of m"
proof -
  have "1 / real_of_int (m + 1) \<le> 1 / real_of_int (n + 1)"
    using assms by (simp add: frac_le)
  then show ?thesis
    unfolding decay_of_def using decay_base by (intro powr_mono') simp_all
qed

lemma decay_of_less_1:
  assumes "0 \<le> n"
  shows "decay_of n < 1"
proof -
  have "0 < 1 / real_of_int (n + 1)" using assms by simp
  then show ?thesis
    unfolding decay_of_def using powr01_less_one [OF decay_base] by blast
qed

lemma decay_of_tendsto: "(\<lambda>n. decay_of (int n)) \<longlonglongrightarrow> 1"
proof -
  have "(\<lambda>n. 1 / real (n + 1)) \<longlonglongrightarrow> 0"
    using LIMSEQ_ignore_initial_segment [OF lim_inverse_n', of 1] by simp
  then have "(\<lambda>n. DECAY_FACTOR powr (1 / real (n + 1))) \<longlonglongrightarrow> DECAY_FACTOR powr 0"
    using decay_base by (intro tendsto_powr tendsto_const) simp_all
  moreover have "real_of_int (int n + 1) = real (n + 1)" for n by simp
  ultimately show ?thesis
    using decay_base unfolding decay_of_def by (simp add: add.commute)
qed

lemma update_record_fields:
  assumes "update_record delay success h = Inr h'"
  shows "usage_count h' = usage_count h + 1"
    and "total_delay h' = total_delay h * decay_of (usage_count h + 1) + delay"
    and "average_delay h' = total_delay h' / real_of_int (usage_count h')"
    and "total_failures h' = (if success then total_failures h else total_failures h + 1)"
    and "failure_rate h' = real_of_int (total_failures h') / real_of_int (usage_count h')"
  using assms by (auto simp: update_record_def Let_def split: if_splits)

lemma decay_of_strict_mono:
  assumes "0 \<le> n" and "n < m"
  shows "decay_of n < decay_of m"
proof -
  have "1 / real_of_int (m + 1) < 1 / real_of_int (n + 1)"
    using assms by (simp add: frac_less2)
  then show ?thesis
    unfolding decay_of_def using decay_base by (intro powr_less_mono') simp_all
qed

lemma update_edge_decayed:
  assumes "update_edge delay success edge_history u v = Inr h1"
  shows "decayed_update delay edge_history (edge_key u v) h1"
proof -
  let ?p = "prior_record edge_history (edge_key u v)"
  obtain r where r: "update_record delay success ?p = Inr r"
    and h1: "h1 = edge_history(edge_key u v \<mapsto> r)"
    using assms by (auto simp: update_edge_eq split: sum.splits)
  note f = update_record_fields [OF r]
  have a: "total_delay r = total_delay ?p * DECAY_FACTOR powr (1 / real_of_int (usage_count r + 1)) + delay"
    using f(1,2) by (simp add: decay_of_def)
  have b: "usage_count r = 1 \<and> total_delay r = delay" if "edge_history (edge_key u v) = None"
    using f(1,2) that by (simp add: prior_record_def new_record_def)
  show ?thesis
    unfolding decayed_update_def
    using h1 f(1) a f(3) b by (intro exI [of _ r]) simp
qed

lemma feedback_loop_trace_short:
  assumes "path_keys path = []" and "feedback_loop delay success edge_history path = Inr h'"
  shows "\<exists>hs. length hs = length (path_keys path) + 1 \<and> hs ! 0 = edge_history
        \<and> hs ! length (path_keys path) = h'
        \<and> (\<forall>i < length (path_keys path).
              decayed_update delay (hs ! i) (path_keys path ! i) (hs ! Suc i))"
proof -
  have "h' = edge_history"
    using assms by (cases path rule: path_keys.cases) simp_all
  then show ?thesis
    using assms(1) by (intro exI [of _ "[edge_history]"]) simp
qed

lemma feedback_loop_trace:
  "feedback_loop delay success edge_history path = Inr h' \<Longrightarrow>
     \<exists>hs. length hs = length (path_keys path) + 1 \<and> hs ! 0 = edge_history
        \<and> hs ! length (path_keys path) = h'
        \<and> (\<forall>i < length (path_keys path).
              decayed_update delay (hs ! i) (path_keys path ! i) (hs ! Suc i))"
proof (induction delay success edge_history path rule: feedback_loop.induct)
  case (1 delay success edge_history u v rest)
  obtain h1 where h1: "update_edge delay success edge_history u v = Inr h1"
    and l: "feedback_loop delay success h1 (v # rest) = Inr h'"
    using "1.prems" by (auto split: sum.splits)
  obtain hs1 where len: "length hs1 = length (path_keys (v # rest)) + 1"
    and first: "hs1 ! 0 = h1"
    and final: "hs1 ! length (path_keys (v # rest)) = h'"
    and steps: "\<forall>i < length (path_keys (v # rest)).
                  decayed_update delay (hs1 ! i) (path_keys (v # rest) ! i) (hs1 ! Suc i)"
    using "1.IH" [OF h1 l] by (elim exE conjE)
  have step: "decayed_update delay edge_history (edge_key u v) h1"
    using update_edge_decayed [OF h1] .
  let ?hs = "edge_history # hs1"
  have a: "length ?hs = length (path_keys (u # v # rest)) + 1" using len by simp
  have b: "?hs ! 0 = edge_history" by simp
  have c: "?hs ! length (path_keys (u # v # rest)) = h'" using final by simp
  have d: "decayed_update delay (?hs ! i) (path_keys (u # v # rest) ! i) (?hs ! Suc i)"
    if "i < length (path_keys (u # v # rest))" for i
  proof (cases i)
    case 0
    then show ?thesis using step first by simp
  next
    case (Suc j)
    then have "j < length (path_keys (v # rest))" using that by simp
    then have "decayed_update delay (hs1 ! j) (path_keys (v # rest) ! j) (hs1 ! Suc j)"
      using steps by simp
    then show ?thesis using Suc by simp
  qed
  show ?case
    using a b c d by (intro exI [of _ ?hs] conjI allI impI)
qed (erule feedback_loop_trace_short [rotated], simp)+

text \<open>
  C9, as the claim states it, fails in its last part. The first observation of an edge
  runs the update with \<open>new_count = 1\<close> and computes \<open>decay = 0.95 ^ (1 / 2)\<close>; the
  second runs it with \<open>new_count = 2\<close> and computes \<open>decay = 0.95 ^ (1 / 3)\<close>, which is
  nearer to 1. So the decay that the code computes is farthest from 1 on the first
  observation, not on the second.
\<close>

theorem first_observation_decay_farthest:
  "record_route_feedback Map.empty [0, 1] 3 2 True
     = Inr [edge_key 0 1 \<mapsto> \<lparr>usage_count = 1, average_delay = 1 / 2, failure_rate = 0,
                             total_delay = 1 / 2, total_failures = 0\<rparr>]
   \<and> usage_count (prior_record Map.empty (edge_key 0 1)) + 1 = 1
   \<and> usage_count (prior_record
        [edge_key 0 1 \<mapsto> \<lparr>usage_count = 1, average_delay = 1 / 2, failure_rate = 0,
                          total_delay = 1 / 2, total_failures = 0\<rparr>] (edge_key 0 1)) + 1 = 2
   \<and> decay_of 1 = (95 / 100) powr (1 / 2)
   \<and> decay_of 2 = (95 / 100) powr (1 / 3)
   \<and> 0 < 1 - decay_of 2
   \<and> 1 - decay_of 2 < 1 - decay_of 1"
proof -
  have a: "decay_of 1 < decay_of 2" by (rule decay_of_strict_mono) simp_all
  have b: "decay_of 2 < 1" by (rule decay_of_less_1) simp
  have c: "decay_of 1 = (95 / 100) powr (1 / 2)" "decay_of 2 = (95 / 100) powr (1 / 3)"
    by (simp_all add: decay_of_def DECAY_FACTOR_def)
  have p: "record_route_feedback Map.empty [0, 1] 3 2 True
     = Inr [edge_key 0 1 \<mapsto> \<lparr>usage_count = 1, average_delay = 1 / 2, failure_rate = 0,
                             total_delay = 1 / 2, total_failures = 0\<rparr>]"
    by (simp add: record_route_feedback_def feedback_delay_def update_edge_def
        update_record_def new_record_def Let_def)
  have q: "usage_count (prior_record Map.empty (edge_key 0 1)) + 1 = 1"
    by (simp add: prior_record_def new_record_def)
  have r: "usage_count (prior_record
        [edge_key 0 1 \<mapsto> \<lparr>usage_count = 1, average_delay = 1 / 2, failure_rate = 0,
                          total_delay = 1 / 2, total_failures = 0\<rparr>] (edge_key 0 1)) + 1 = 2"
    by (simp add: prior_record_def)
  show ?thesis using a b c(1) c(2) p q r by (intro conjI) simp_all
qed

text \<open>
  C9, amended. A call of \<open>record_route_feedback\<close> that returns has gone through the
  stores \<open>hs ! 0\<close> (the store before the call), ..., \<open>hs ! n\<close> (the store returned), one
  step for each consecutive pair of the path, repeated edges included; step \<open>i\<close> replaces
  the record of the \<open>i\<close>-th edge by exactly \<open>new_count = old_count + 1\<close>,
  \<open>total_delay' = total_delay * decay + delay\<close> with
  \<open>decay = DECAY_FACTOR ^ (1 / (new_count + 1))\<close> and \<open>DECAY_FACTOR = 0.95\<close>, and
  \<open>average_delay' = total_delay' / new_count\<close>, where \<open>delay\<close> is the delay of the call;
  on a store whose usage counts are non-negative the call does return. The decay is
  below 1, strictly increases with the count and tends to 1. It is therefore farthest
  from 1 on the first observation of an edge (\<open>new_count = 1\<close>), where it multiplies the
  zero \<open>total_delay\<close> of a fresh record, so that \<open>total_delay' = delay\<close>; among the
  updates of an existing record it is farthest from 1 on the second observation.
\<close>

theorem feedback_decay_update:
  "(record_route_feedback edge_history path actual_time expected_time success = Inr h' \<longrightarrow>
      (\<exists>hs. length hs = length (path_keys path) + 1 \<and> hs ! 0 = edge_history
          \<and> hs ! length (path_keys path) = h'
          \<and> (\<forall>i < length (path_keys path).
                decayed_update (feedback_delay actual_time expected_time)
                  (hs ! i) (path_keys path ! i) (hs ! Suc i))))
   \<and> (counts_nonneg edge_history \<longrightarrow>
        (\<exists>h1. record_route_feedback edge_history path actual_time expected_time success = Inr h1))
   \<and> DECAY_FACTOR = 95 / 100
   \<and> (\<forall>n m. 0 \<le> n \<and> n < m \<longrightarrow> decay_of n < decay_of m \<and> decay_of m < 1)
   \<and> (\<lambda>n. decay_of (int n)) \<longlonglongrightarrow> 1"
proof (intro conjI impI allI)
  assume "record_route_feedback edge_history path actual_time expected_time success = Inr h'"
  then have "feedback_loop (feedback_delay actual_time expected_time) success edge_history path = Inr h'"
    by (simp add: record_route_feedback_def)
  then show "\<exists>hs. length hs = length (path_keys path) + 1 \<and> hs ! 0 = edge_history
          \<and> hs ! length (path_keys path) = h'
          \<and> (\<forall>i < length (path_keys path).
                decayed_update (feedback_delay actual_time expected_time)
                  (hs ! i) (path_keys path ! i) (hs ! Suc i))"
    by (rule feedback_loop_trace)
next
  assume c: "counts_nonneg edge_history"
  obtain h1 where "feedback_loop (feedback_delay actual_time expected_time) success
                         edge_history path = Inr h1"
    using feedback_loop_ok [OF c] by blast
  then show "\<exists>h1. record_route_feedback edge_history path actual_time expected_time success = Inr h1"
    by (simp add: record_route_feedback_def)
next
  show "DECAY_FACTOR = 95 / 100" by (simp add: DECAY_FACTOR_def)
next
  fix n m :: int assume "0 \<le> n \<and> n < m"
  then show "decay_of n < decay_of m" using decay_of_strict_mono by blast
next
  fix n m :: int assume "0 \<le> n \<and> n < m"
  then have "0 \<le> m" by simp
  then show "decay_of m < 1" by (rule decay_of_less_1)
next
  show "(\<lambda>n. decay_of (int n)) \<longlonglongrightarrow> 1" by (rule decay_of_tendsto)
qed

theorem feedback_decay_update_witness:
  "record_route_feedback
     [edge_key 0 1 \<mapsto> \<lparr>usage_count = 1, average_delay = 1 / 2, failure_rate = 0,
                       total_delay = 1 / 2, total_failures = 0\<rparr>] [0, 1] 3 2 True
     = Inr [edge_key 0 1 \<mapsto>
             \<lparr>usage_count = 2,
              average_delay = (1 / 2 * (95 / 100) powr (1 / 3) + 1 / 2) / 2,
              failure_rate = 0,
              total_delay = 1 / 2 * (95 / 100) powr (1 / 3) + 1 / 2,
              total_failures = 0\<rparr>]
   \<and> decayed_update (1 / 2)
        [edge_key 0 1 \<mapsto> \<lparr>usage_count = 1, average_delay = 1 / 2, failure_rate = 0,
                          total_delay = 1 / 2, total_failures = 0\<rparr>]
        (edge_key 0 1)
        [edge_key 0 1 \<mapsto>
             \<lparr>usage_count = 2,
              average_delay = (1 / 2 * (95 / 100) powr (1 / 3) + 1 / 2) / 2,
              failure_rate = 0,
              total_delay = 1 / 2 * (95 / 100) powr (1 / 3) + 1 / 2,
              total_failures = 0\<rparr>]
   \<and> decay_of 1 < decay_of 2 \<and> decay_of 2 < 1"
proof -
  let ?h1 = "[edge_key 0 1 \<mapsto> \<lparr>usage_count = 1, average_delay = 1 / 2, failure_rate = 0,
                       total_delay = 1 / 2, total_failures = 0\<rparr>]"
  let ?h2 = "[edge_key 0 1 \<mapsto>
             \<lparr>usage_count = 2,
              average_delay = (1 / 2 * (95 / 100) powr (1 / 3) + 1 / 2) / 2,
              failure_rate = 0,
              total_delay = 1 / 2 * (95 / 100) powr (1 / 3) + 1 / 2,
              total_failures = 0\<rparr>]"
  have p: "record_route_feedback ?h1 [0, 1] 3 2 True = Inr ?h2"
    by (simp add: record_route_feedback_def feedback_delay_def update_edge_def
        update_record_def decay_of_def DECAY_FACTOR_def Let_def)
  have d: "feedback_delay 3 2 = 1 / 2" by (simp add: feedback_delay_def)
  note t = feedback_decay_update [of ?h1 "[0, 1]" 3 2 True ?h2]
  obtain hs where first: "hs ! 0 = ?h1"
    and final: "hs ! length (path_keys [0, 1]) = ?h2"
    and steps: "\<forall>i < length (path_keys [0, 1]).
                  decayed_update (feedback_delay 3 2) (hs ! i) (path_keys [0, 1] ! i) (hs ! Suc i)"
    using t p by blast
  have "decayed_update (feedback_delay 3 2) (hs ! 0) (path_keys [0, 1] ! 0) (hs ! Suc 0)"
    using steps by simp
  then have u: "decayed_update (1 / 2) ?h1 (edge_key 0 1) ?h2"
    using first final d by simp
  have mono: "\<forall>n m. 0 \<le> n \<and> n < m \<longrightarrow> decay_of n < decay_of m \<and> decay_of m < 1"
    using t by (elim conjE)
  have m: "decay_of 1 < decay_of 2 \<and> decay_of 2 < 1"
    using mono [rule_format, of 1 2] by simp
  show ?thesis using p u m by (intro conjI) simp_all
qed

lemma update_edge_fail_step:
  assumes "store_consistent edge_history"
    and "update_edge delay False edge_history u v = Inr h1"
  shows "\<exists>r1. h1 = edge_history(edge_key u v \<mapsto> r1) \<and> record_consistent r1
           \<and> (edge_history (edge_key u v) = None \<longrightarrow> failure_rate r1 = 1)
           \<and> (\<forall>r. edge_history (edge_key u v) = Some r \<longrightarrow>
                  failure_rate r \<le> failure_rate r1
                  \<and> (failure_rate r < 1 \<longrightarrow> failure_rate r < failure_rate r1)
                  \<and> (failure_rate r = 1 \<longrightarrow> failure_rate r1 = 1))"
proof -
  let ?k = "edge_key u v"
  obtain r1 where r1: "update_record delay False (prior_record edge_history ?k) = Inr r1"
    and h1: "h1 = edge_history(?k \<mapsto> r1)"
    using assms(2) by (auto simp: update_edge_eq split: sum.splits)
  have c: "record_consistent r1"
    using prior_record_step_consistent [OF assms(1) r1] .
  have n: "failure_rate r1 = 1" if "edge_history ?k = None"
    using r1 that update_record_first_failure by (simp add: prior_record_def)
  have s: "failure_rate r \<le> failure_rate r1
           \<and> (failure_rate r < 1 \<longrightarrow> failure_rate r < failure_rate r1)
           \<and> (failure_rate r = 1 \<longrightarrow> failure_rate r1 = 1)" if "edge_history ?k = Some r" for r
  proof -
    have rc: "record_consistent r" using assms(1) that by (auto simp: store_consistent_def)
    have u: "update_record delay False r = Inr r1" using r1 that by (simp add: prior_record_def)
    show ?thesis using update_record_fail_rate [OF rc u] by blast
  qed
  show ?thesis
  proof (intro exI [of _ r1] conjI impI allI)
    show "h1 = edge_history(?k \<mapsto> r1)" by (rule h1)
    show "record_consistent r1" by (rule c)
    show "failure_rate r1 = 1" if "edge_history ?k = None" using n that .
    show "failure_rate r \<le> failure_rate r1" if "edge_history ?k = Some r" for r
      using s [OF that] by simp
    show "failure_rate r < failure_rate r1" if "edge_history ?k = Some r" "failure_rate r < 1" for r
      using s [OF that(1)] that(2) by simp
    show "failure_rate r1 = 1" if "edge_history ?k = Some r" "failure_rate r = 1" for r
      using s [OF that(1)] that(2) by simp
  qed
qed

lemma feedback_loop_fail_mono:
  "store_consistent edge_history \<Longrightarrow> feedback_loop delay False edge_history path = Inr h'
     \<Longrightarrow> edge_history k = Some r
     \<Longrightarrow> \<exists>r'. h' k = Some r' \<and> failure_rate r \<le> failure_rate r'
               \<and> (failure_rate r = 1 \<longrightarrow> failure_rate r' = 1)"
proof (induction path arbitrary: edge_history r rule: path_keys.induct)
  case (1 u v rest)
  obtain h1 where h1: "update_edge delay False edge_history u v = Inr h1"
    and l: "feedback_loop delay False h1 (v # rest) = Inr h'"
    using "1.prems"(2) by (auto split: sum.splits)
  obtain r1 where e: "h1 = edge_history(edge_key u v \<mapsto> r1)"
    and s: "\<forall>r. edge_history (edge_key u v) = Some r \<longrightarrow>
                  failure_rate r \<le> failure_rate r1
                  \<and> (failure_rate r < 1 \<longrightarrow> failure_rate r < failure_rate r1)
                  \<and> (failure_rate r = 1 \<longrightarrow> failure_rate r1 = 1)"
    using update_edge_fail_step [OF "1.prems"(1) h1] by blast
  have c1: "store_consistent h1"
    using update_edge_consistent [OF "1.prems"(1) h1] .
  show ?case
  proof (cases "k = edge_key u v")
    case True
    then have "h1 k = Some r1" using e by simp
    from "1.IH" [OF c1 l this] obtain r' where "h' k = Some r'"
      and "failure_rate r1 \<le> failure_rate r'" and "failure_rate r1 = 1 \<longrightarrow> failure_rate r' = 1"
      by blast
    moreover have "edge_history (edge_key u v) = Some r"
      using "1.prems"(3) True by simp
    then have "failure_rate r \<le> failure_rate r1" "failure_rate r = 1 \<longrightarrow> failure_rate r1 = 1"
      using s by simp_all
    ultimately show ?thesis by simp
  next
    case False
    then have "h1 k = Some r" using e "1.prems"(3) by simp
    from "1.IH" [OF c1 l this] show ?thesis .
  qed
qed auto

lemma feedback_loop_fail_strict:
  "store_consistent edge_history \<Longrightarrow> feedback_loop delay False edge_history path = Inr h'
     \<Longrightarrow> k \<in> set (path_keys path) \<Longrightarrow> edge_history k = Some r \<Longrightarrow> failure_rate r < 1
     \<Longrightarrow> \<exists>r'. h' k = Some r' \<and> failure_rate r < failure_rate r'"
proof (induction path arbitrary: edge_history r rule: path_keys.induct)
  case (1 u v rest)
  obtain h1 where h1: "update_edge delay False edge_history u v = Inr h1"
    and l: "feedback_loop delay False h1 (v # rest) = Inr h'"
    using "1.prems"(2) by (auto split: sum.splits)
  obtain r1 where e: "h1 = edge_history(edge_key u v \<mapsto> r1)"
    and s: "\<forall>r. edge_history (edge_key u v) = Some r \<longrightarrow>
                  failure_rate r \<le> failure_rate r1
                  \<and> (failure_rate r < 1 \<longrightarrow> failure_rate r < failure_rate r1)
                  \<and> (failure_rate r = 1 \<longrightarrow> failure_rate r1 = 1)"
    using update_edge_fail_step [OF "1.prems"(1) h1] by blast
  have c1: "store_consistent h1"
    using update_edge_consistent [OF "1.prems"(1) h1] .
  show ?case
  proof (cases "k = edge_key u v")
    case True
    then have "h1 k = Some r1" using e by simp
    from feedback_loop_fail_mono [OF c1 l this] obtain r' where "h' k = Some r'"
      and "failure_rate r1 \<le> failure_rate r'" by blast
    moreover have "edge_history (edge_key u v) = Some r"
      using "1.prems"(4) True by simp
    then have "failure_rate r < failure_rate r1"
      using s "1.prems"(5) by simp
    ultimately show ?thesis by simp
  next
    case False
    then have a: "h1 k = Some r" using e "1.prems"(4) by simp
    have b: "k \<in> set (path_keys (v # rest))" using False "1.prems"(3) by simp
    show ?thesis by (rule "1.IH" [OF c1 l b a "1.prems"(5)])
  qed
qed auto

lemma feedback_loop_fail_first:
  "store_consistent edge_history \<Longrightarrow> feedback_loop delay False edge_history path = Inr h'
     \<Longrightarrow> k \<in> set (path_keys path) \<Longrightarrow> edge_history k = None
     \<Longrightarrow> \<exists>r'. h' k = Some r' \<and> failure_rate r' = 1"
proof (induction path arbitrary: edge_history rule: path_keys.induct)
  case (1 u v rest)
  obtain h1 where h1: "update_edge delay False edge_history u v = Inr h1"
    and l: "feedback_loop delay False h1 (v # rest) = Inr h'"
    using "1.prems"(2) by (auto split: sum.splits)
  obtain r1 where r1: "update_record delay False (prior_record edge_history (edge_key u v)) = Inr r1"
    and e: "h1 = edge_history(edge_key u v \<mapsto> r1)"
    using h1 by (auto simp: update_edge_eq split: sum.splits)
  have c1: "store_consistent h1"
    using update_edge_consistent [OF "1.prems"(1) h1] .
  show ?case
  proof (cases "k = edge_key u v")
    case True
    then have a: "h1 k = Some r1" using e by simp
    have "prior_record edge_history (edge_key u v) = new_record"
      using "1.prems"(4) True by (simp add: prior_record_def)
    then have one: "failure_rate r1 = 1"
      using r1 update_record_first_failure by simp
    obtain r' where r': "h' k = Some r'" and "failure_rate r1 = 1 \<longrightarrow> failure_rate r' = 1"
      using feedback_loop_fail_mono [OF c1 l a] by blast
    then have "failure_rate r' = 1" using one by simp
    then show ?thesis using r' by simp
  next
    case False
    then have a: "h1 k = None" using e "1.prems"(4) by simp
    have b: "k \<in> set (path_keys (v # rest))" using False "1.prems"(3) by simp
    show ?thesis by (rule "1.IH" [OF c1 l b a])
  qed
qed auto


text \<open>
  C4. The store is consistent when every record has \<open>usage_count \<ge> 1\<close>,
  \<open>average_delay = total_delay / usage_count\<close>,
  \<open>failure_rate = total_failures / usage_count\<close> and
  \<open>0 \<le> total_failures \<le> usage_count\<close>. The empty store is consistent, and every call
  of \<open>record_route_feedback\<close> on a consistent store returns a consistent store: after
  every call, no record has stale derived fields.
\<close>

theorem feedback_keeps_store_consistent:
  "store_consistent Map.empty
   \<and> (store_consistent edge_history \<longrightarrow>
        (\<exists>h'. record_route_feedback edge_history path actual_time expected_time success = Inr h'
           \<and> store_consistent h'))"
proof (intro conjI impI)
  show "store_consistent Map.empty" by (simp add: store_consistent_def)
next
  assume c: "store_consistent edge_history"
  obtain h' where h': "feedback_loop (feedback_delay actual_time expected_time) success
                         edge_history path = Inr h'"
    using feedback_loop_ok [OF store_consistent_counts [OF c]] by blast
  have "store_consistent h'"
    using feedback_loop_consistent [OF c h'] .
  then show "\<exists>h'. record_route_feedback edge_history path actual_time expected_time success = Inr h'
           \<and> store_consistent h'"
    using h' by (simp add: record_route_feedback_def)
qed

theorem feedback_keeps_store_consistent_witness:
  "\<exists>h'. record_route_feedback Map.empty [0, 1, 2] 30 20 True = Inr h' \<and> store_consistent h'"
  using feedback_keeps_store_consistent [of Map.empty "[0, 1, 2]" 30 20 True] by blast

text \<open>
  C5, as the claim states it, fails: an edge observed once, with a failure, has
  \<open>usage_count = 1\<close> and \<open>failure_rate = 1\<close>; after a second failed feedback its
  \<open>failure_rate\<close> is still 1, so it has not strictly increased.
\<close>

theorem failure_rate_not_strictly_increasing:
  "record_route_feedback Map.empty [0, 1] 20 20 False
     = Inr [edge_key 0 1 \<mapsto> \<lparr>usage_count = 1, average_delay = 0, failure_rate = 1,
                             total_delay = 0, total_failures = 1\<rparr>]
   \<and> record_route_feedback
        [edge_key 0 1 \<mapsto> \<lparr>usage_count = 1, average_delay = 0, failure_rate = 1,
                          total_delay = 0, total_failures = 1\<rparr>] [0, 1] 20 20 False
     = Inr [edge_key 0 1 \<mapsto> \<lparr>usage_count = 2, average_delay = 0, failure_rate = 1,
                             total_delay = 0, total_failures = 2\<rparr>]"
  by (simp add: record_route_feedback_def feedback_delay_def update_edge_def
      update_record_def new_record_def Let_def)

text \<open>
  C5, amended. On a consistent store, after \<open>record_route_feedback\<close> with
  \<open>success = False\<close>, every edge of the path has a record; its \<open>failure_rate\<close> is exactly
  1 when the edge had no record before (first observation); it has strictly increased
  when the edge had a record (whose \<open>usage_count\<close> is then positive) with
  \<open>failure_rate < 1\<close>; and it stays exactly 1 when it was 1 already.
\<close>

theorem failed_feedback_failure_rate:
  assumes "store_consistent edge_history" and "k \<in> set (path_keys path)"
  shows "\<exists>h' r'. record_route_feedback edge_history path actual_time expected_time False = Inr h'
           \<and> h' k = Some r'
           \<and> (case edge_history k of
                 None \<Rightarrow> failure_rate r' = 1
               | Some r \<Rightarrow> 0 < usage_count r
                   \<and> (if failure_rate r < 1 then failure_rate r < failure_rate r'
                       else failure_rate r = 1 \<and> failure_rate r' = 1))"
proof -
  let ?d = "feedback_delay actual_time expected_time"
  obtain h' where h': "feedback_loop ?d False edge_history path = Inr h'"
    using feedback_loop_ok [OF store_consistent_counts [OF assms(1)]] by blast
  have call: "record_route_feedback edge_history path actual_time expected_time False = Inr h'"
    using h' by (simp add: record_route_feedback_def)
  show ?thesis
  proof (cases "edge_history k")
    case None
    obtain r' where "h' k = Some r'" and "failure_rate r' = 1"
      using feedback_loop_fail_first [OF assms(1) h' assms(2) None] by blast
    then show ?thesis using call None by simp
  next
    case (Some r)
    have rc: "record_consistent r"
      using assms(1) Some by (auto simp: store_consistent_def)
    then have pos: "0 < usage_count r" by (simp add: record_consistent_def)
    have le1: "failure_rate r \<le> 1" using record_consistent_rate [OF rc] by simp
    show ?thesis
    proof (cases "failure_rate r < 1")
      case True
      obtain r' where "h' k = Some r'" and "failure_rate r < failure_rate r'"
        using feedback_loop_fail_strict [OF assms(1) h' assms(2) Some True] by blast
      then show ?thesis using call Some pos True by simp
    next
      case False
      then have one: "failure_rate r = 1" using le1 by simp
      obtain r' where "h' k = Some r'" and "failure_rate r = 1 \<longrightarrow> failure_rate r' = 1"
        using feedback_loop_fail_mono [OF assms(1) h' Some] by blast
      then show ?thesis using call Some pos one by simp
    qed
  qed
qed

theorem failed_feedback_failure_rate_witness:
  "\<exists>h' r'. record_route_feedback
             [edge_key 0 1 \<mapsto> \<lparr>usage_count = 2, average_delay = 0, failure_rate = 1 / 2,
                               total_delay = 0, total_failures = 1\<rparr>] [0, 1] 20 20 False = Inr h'
           \<and> h' (edge_key 0 1) = Some r' \<and> 1 / 2 < failure_rate r'"
proof -
  have a: "store_consistent
             [edge_key 0 1 \<mapsto> \<lparr>usage_count = 2, average_delay = 0, failure_rate = 1 / 2,
                               total_delay = 0, total_failures = 1\<rparr>]"
    by (auto simp: store_consistent_def record_consistent_def split: if_splits)
  have b: "edge_key 0 1 \<in> set (path_keys [0, 1])" by simp
  show ?thesis
    using failed_feedback_failure_rate [OF a b, of 20 20] by simp
qed



section \<open>The search\<close>

lemma map_of_dict_set: "map_of (dict_set k v ps) k' = (if k' = k then Some v else map_of ps k')"
  by (induction ps) auto

lemma map_of_init_parents:
  "map_of (map (\<lambda>n. (n, None)) ns) k = (if k \<in> set ns then Some None else None)"
  by (induction ns) auto

lemma follow_parents_root:
  "map_of ps c = Some None \<Longrightarrow> follow_parents ps (Some c) path = Some (Inr (path @ [c]))"
  by (subst follow_parents.simps, simp) (subst follow_parents.simps, simp)

lemma search_loop_goal_first:
  "search_loop g vt h start (initial_state g start)
     = Inr ((initial_state g start)\<lparr>pq := [], visited := {start},
              run_stats := stats0\<lparr>nodes_explored := 1\<rparr>\<rparr>)"
  by (subst search_loop.simps) (simp add: initial_state_def stats0_def)

text \<open>
  C10. For every node \<open>s\<close> of the graph, \<open>find_optimal_path(s, s)\<close> returns the path
  \<open>[s]\<close> with total cost 0, for every history and vehicle class: the goal is settled
  at the first extraction, and path reconstruction accepts a goal without parent link
  when it is the start.
\<close>

theorem same_node_path:
  assumes "s \<in> set (nodes g)"
  shows "find_optimal_path g vehicle_type edge_history s s
           = Some (Inr ([s], Fin 0, stats0\<lparr>nodes_explored := 1, path_length := 1\<rparr>))"
proof -
  have p: "map_of (parents (initial_state g s)) s = Some None"
    using assms by (simp add: initial_state_def map_of_init_parents)
  have r: "reconstruct_path (parents (initial_state g s)) s s = Some (Inr [s])"
    using p by (simp add: reconstruct_path_def follow_parents_root)
  have c: "map_of (costs (initial_state g s)) s = Some (Fin 0)"
    by (simp add: initial_state_def map_of_dict_set)
  show ?thesis
    using r c by (simp add: find_optimal_path_def search_loop_goal_first)
qed

theorem same_node_path_witness:
  "find_optimal_path line_graph ''bajaji'' Map.empty 1 1
     = Some (Inr ([1], Fin 0, stats0\<lparr>nodes_explored := 1, path_length := 1\<rparr>))"
  using same_node_path [of 1 line_graph "''bajaji''" Map.empty] by (simp add: line_graph_def)

lemma follow_parents_None: "follow_parents ps None path = Some (Inr path)"
  by (subst follow_parents.simps) simp

lemma follow_parents_step:
  "map_of ps c = Some p \<Longrightarrow> follow_parents ps (Some c) path = follow_parents ps p (path @ [c])"
  by (subst follow_parents.simps) simp

lemma line_graph_search:
  "\<exists>st st1 st2. find_optimal_path line_graph ''boda'' h 0 2
      = Some (Inr ([0, 1, 2],
                   Fin (fst (calculate_adaptive_cost ''boda'' h st1 0 1 10 line_md)
                        + fst (calculate_adaptive_cost ''boda'' h st2 1 2 10 line_md)),
                   st))"
  apply (simp add: find_optimal_path_def initial_state_def line_graph_def)
  apply (subst search_loop.simps, simp add: Let_def)
  apply (subst search_loop.simps, simp add: Let_def)
  apply (subst search_loop.simps, simp add: Let_def)
  apply (simp add: reconstruct_path_def follow_parents_step follow_parents_None)
  apply blast
  done

lemma line_cost_no_history:
  "h (edge_key u v) = None \<Longrightarrow> fst (calculate_adaptive_cost ''boda'' h st u v 10 line_md) = 10"
  by (simp add: calculate_adaptive_cost_def static_cost_def vehicle_penalty_def line_md_def)

lemma line_cost_with_history:
  assumes "h (edge_key u v) = Some r" and "usage_count r = 3"
    and "0 < average_delay r" and "failure_rate r = 0"
  shows "10 < fst (calculate_adaptive_cost ''boda'' h st u v 10 line_md)"
  using assms
  by (simp add: calculate_adaptive_cost_def static_cost_def vehicle_penalty_def line_md_def
      MIN_SAMPLES_def historical_penalty_def HISTORICAL_WEIGHT_def)

lemma decay_of_nonneg: "0 \<le> decay_of n"
  by (simp add: decay_of_def)

lemma three_updates:
  assumes "update_record d True new_record = Inr r1"
    and "update_record d True r1 = Inr r2"
    and "update_record d True r2 = Inr r3"
    and "0 < d"
  shows "usage_count r3 = 3 \<and> failure_rate r3 = 0 \<and> 0 < average_delay r3"
proof -
  note f1 = update_record_fields [OF assms(1)]
  note f2 = update_record_fields [OF assms(2)]
  note f3 = update_record_fields [OF assms(3)]
  have u: "usage_count r3 = 3"
    using f1(1) f2(1) f3(1) by (simp add: new_record_def)
  have "total_failures r3 = 0"
    using f1(4) f2(4) f3(4) by (simp add: new_record_def)
  then have fr: "failure_rate r3 = 0" using f3(5) by simp
  have t1: "0 \<le> total_delay r1"
    using f1(2) assms(4) by (simp add: new_record_def)
  have "0 \<le> total_delay r1 * decay_of (usage_count r1 + 1)"
    using t1 decay_of_nonneg by simp
  then have t2: "0 \<le> total_delay r2" using f2(2) assms(4) by simp
  have "0 \<le> total_delay r2 * decay_of (usage_count r2 + 1)"
    using t2 decay_of_nonneg by simp
  then have "0 < total_delay r3" using f3(2) assms(4) by simp
  then have "0 < average_delay r3" using f3(3) u by simp
  then show ?thesis using u fr by simp
qed

lemma feedback_loop_distinct_update:
  "feedback_loop delay success edge_history path = Inr h' \<Longrightarrow> distinct (path_keys path)
     \<Longrightarrow> k \<in> set (path_keys path)
     \<Longrightarrow> \<exists>r'. h' k = Some r'
           \<and> update_record delay success (prior_record edge_history k) = Inr r'"
proof (induction path arbitrary: edge_history rule: path_keys.induct)
  case (1 u v rest)
  obtain r1 where r1: "update_record delay success (prior_record edge_history (edge_key u v)) = Inr r1"
    and l: "feedback_loop delay success (edge_history(edge_key u v \<mapsto> r1)) (v # rest) = Inr h'"
    using "1.prems"(1) by (auto simp: update_edge_eq split: sum.splits)
  show ?case
  proof (cases "k = edge_key u v")
    case True
    then have "k \<notin> set (path_keys (v # rest))" using "1.prems"(2) by simp
    from feedback_loop_untouched [OF l this] have "h' k = Some r1" using True by simp
    then show ?thesis using r1 True by simp
  next
    case False
    then have a: "k \<in> set (path_keys (v # rest))" using "1.prems"(3) by simp
    have b: "distinct (path_keys (v # rest))" using "1.prems"(2) by simp
    have p: "prior_record (edge_history(edge_key u v \<mapsto> r1)) k = prior_record edge_history k"
      using False by (simp add: prior_record_def)
    have "\<exists>r'. h' k = Some r'
           \<and> update_record delay success (prior_record (edge_history(edge_key u v \<mapsto> r1)) k) = Inr r'"
      by (rule "1.IH" [OF l b a])
    then show ?thesis unfolding p .
  qed
qed auto

lemma three_feedbacks:
  assumes l1: "feedback_loop d True Map.empty path = Inr h1"
    and l2: "feedback_loop d True h1 path = Inr h2"
    and l3: "feedback_loop d True h2 path = Inr h3"
    and dist: "distinct (path_keys path)" and k: "k \<in> set (path_keys path)" and d: "0 < d"
  shows "\<exists>r. h3 k = Some r \<and> usage_count r = 3 \<and> failure_rate r = 0 \<and> 0 < average_delay r"
proof -
  obtain r1 where r1: "h1 k = Some r1"
    and u1: "update_record d True (prior_record Map.empty k) = Inr r1"
    using feedback_loop_distinct_update [OF l1 dist k] by blast
  obtain r2 where r2: "h2 k = Some r2"
    and u2: "update_record d True (prior_record h1 k) = Inr r2"
    using feedback_loop_distinct_update [OF l2 dist k] by blast
  obtain r3 where r3: "h3 k = Some r3"
    and u3: "update_record d True (prior_record h2 k) = Inr r3"
    using feedback_loop_distinct_update [OF l3 dist k] by blast
  have a: "update_record d True new_record = Inr r1"
    using u1 by (simp add: prior_record_def)
  have b: "update_record d True r1 = Inr r2"
    using u2 r1 by (simp add: prior_record_def)
  have c: "update_record d True r2 = Inr r3"
    using u3 r2 by (simp add: prior_record_def)
  show ?thesis using three_updates [OF a b c d] r3 by simp
qed

text \<open>
  C1. On the line graph \<open>0 \<rightarrow> 1 \<rightarrow> 2\<close> (each edge with \<open>base_distance = 10\<close>,
  \<open>traffic_factor = 1.0\<close>, \<open>quality = 1.0\<close>), vehicle \<open>'boda'\<close>, empty history,
  \<open>find_optimal_path(0, 2)\<close> returns the path \<open>[0, 1, 2]\<close> with total cost exactly 20.
  Three calls of \<open>record_route_feedback([0, 1, 2], 30, 20, True)\<close> from the empty
  history all return, leave \<open>usage_count = 3\<close> on both edges, and the search that
  follows returns the same path with a total cost strictly greater than 20.
\<close>

theorem line_graph_scenario:
  "(\<exists>st. find_optimal_path line_graph ''boda'' Map.empty 0 2
            = Some (Inr ([0, 1, 2], Fin 20, st)))
   \<and> (\<exists>h1 h2 h3 r01 r12 c st.
         record_route_feedback Map.empty [0, 1, 2] 30 20 True = Inr h1
       \<and> record_route_feedback h1 [0, 1, 2] 30 20 True = Inr h2
       \<and> record_route_feedback h2 [0, 1, 2] 30 20 True = Inr h3
       \<and> h3 (edge_key 0 1) = Some r01 \<and> usage_count r01 = 3
       \<and> h3 (edge_key 1 2) = Some r12 \<and> usage_count r12 = 3
       \<and> find_optimal_path line_graph ''boda'' h3 0 2 = Some (Inr ([0, 1, 2], Fin c, st))
       \<and> 20 < c)"
proof (intro conjI)
  obtain st st1 st2 where
    "find_optimal_path line_graph ''boda'' Map.empty 0 2
      = Some (Inr ([0, 1, 2],
                   Fin (fst (calculate_adaptive_cost ''boda'' Map.empty st1 0 1 10 line_md)
                        + fst (calculate_adaptive_cost ''boda'' Map.empty st2 1 2 10 line_md)),
                   st))"
    using line_graph_search [of Map.empty] by blast
  then have "find_optimal_path line_graph ''boda'' Map.empty 0 2
               = Some (Inr ([0, 1, 2], Fin 20, st))"
    by (simp add: line_cost_no_history)
  then show "\<exists>st. find_optimal_path line_graph ''boda'' Map.empty 0 2
                 = Some (Inr ([0, 1, 2], Fin 20, st))" ..
next
  let ?d = "feedback_delay 30 20"
  have d: "0 < ?d" by (simp add: feedback_delay_def)
  have dist: "distinct (path_keys [0, 1, 2])"
    by (simp add: edge_key_0_1 edge_key_1_2)
  have c0: "counts_nonneg Map.empty" by (simp add: counts_nonneg_def)
  obtain h1 where l1: "feedback_loop ?d True Map.empty [0, 1, 2] = Inr h1"
    and c1: "counts_nonneg h1"
    using feedback_loop_ok [OF c0] by blast
  obtain h2 where l2: "feedback_loop ?d True h1 [0, 1, 2] = Inr h2"
    and c2: "counts_nonneg h2"
    using feedback_loop_ok [OF c1] by blast
  obtain h3 where l3: "feedback_loop ?d True h2 [0, 1, 2] = Inr h3"
    using feedback_loop_ok [OF c2] by blast
  have k01: "edge_key 0 1 \<in> set (path_keys [0, 1, 2])" by simp
  have k12: "edge_key 1 2 \<in> set (path_keys [0, 1, 2])" by simp
  obtain r01 where r01: "h3 (edge_key 0 1) = Some r01" "usage_count r01 = 3"
    "failure_rate r01 = 0" "0 < average_delay r01"
    using three_feedbacks [OF l1 l2 l3 dist k01 d] by blast
  obtain r12 where r12: "h3 (edge_key 1 2) = Some r12" "usage_count r12 = 3"
    "failure_rate r12 = 0" "0 < average_delay r12"
    using three_feedbacks [OF l1 l2 l3 dist k12 d] by blast
  obtain st st1 st2 where f:
    "find_optimal_path line_graph ''boda'' h3 0 2
      = Some (Inr ([0, 1, 2],
                   Fin (fst (calculate_adaptive_cost ''boda'' h3 st1 0 1 10 line_md)
                        + fst (calculate_adaptive_cost ''boda'' h3 st2 1 2 10 line_md)),
                   st))"
    using line_graph_search [of h3] by blast
  have "10 < fst (calculate_adaptive_cost ''boda'' h3 st1 0 1 10 line_md)"
    using r01 by (intro line_cost_with_history [of h3 0 1 r01]) simp_all
  moreover have "10 < fst (calculate_adaptive_cost ''boda'' h3 st2 1 2 10 line_md)"
    using r12 by (intro line_cost_with_history [of h3 1 2 r12]) simp_all
  ultimately have gt: "20 < fst (calculate_adaptive_cost ''boda'' h3 st1 0 1 10 line_md)
                        + fst (calculate_adaptive_cost ''boda'' h3 st2 1 2 10 line_md)"
    by simp
  show "\<exists>h1 h2 h3 r01 r12 c st.
         record_route_feedback Map.empty [0, 1, 2] 30 20 True = Inr h1
       \<and> record_route_feedback h1 [0, 1, 2] 30 20 True = Inr h2
       \<and> record_route_feedback h2 [0, 1, 2] 30 20 True = Inr h3
       \<and> h3 (edge_key 0 1) = Some r01 \<and> usage_count r01 = 3
       \<and> h3 (edge_key 1 2) = Some r12 \<and> usage_count r12 = 3
       \<and> find_optimal_path line_graph ''boda'' h3 0 2 = Some (Inr ([0, 1, 2], Fin c, st))
       \<and> 20 < c"
    using l1 l2 l3 r01(1,2) r12(1,2) f gt
    unfolding record_route_feedback_def by blast
qed

lemma dict_set_key_set: "fst ` set (dict_set k v ps) = insert k (fst ` set ps)"
  by (induction ps) auto

lemma map_of_in_keys: "k \<in> fst ` set ps \<Longrightarrow> \<exists>v. map_of ps k = Some v"
  by (induction ps) auto

lemma map_of_not_in_keys: "k \<notin> fst ` set ps \<Longrightarrow> map_of ps k = None"
  by (induction ps) auto

lemma explore_neighbors_error:
  "explore_neighbors vt h cur es s = Inl e \<Longrightarrow> \<exists>k. e = KeyError k"
proof (induction es arbitrary: s)
  case Nil
  then show ?case by simp
next
  case (Cons x es)
  obtain nb bd md where x: "x = (nb, bd, md)" by (cases x) auto
  show ?case
    using Cons.prems Cons.IH unfolding x
    by (auto simp: Let_def split: if_splits option.splits)
qed

lemma explore_neighbors_parent_keys:
  "explore_neighbors vt h cur es s = Inr s' \<Longrightarrow> fst ` set (parents s) \<subseteq> N
     \<Longrightarrow> fst ` set (costs s) \<subseteq> insert start N \<Longrightarrow> start \<in> visited s
     \<Longrightarrow> fst ` set (parents s') \<subseteq> N"
proof (induction es arbitrary: s)
  case Nil
  then show ?case by simp
next
  case (Cons x es)
  obtain nb bd md where x: "x = (nb, bd, md)" by (cases x) auto
  show ?case
  proof (cases "nb \<in> visited s")
    case True
    then have "explore_neighbors vt h cur es
        (s\<lparr>run_stats := (run_stats s)\<lparr>edges_examined := edges_examined (run_stats s) + 1,
             explored_edges := explored_edges (run_stats s) @ [(cur, nb)]\<rparr>\<rparr>) = Inr s'"
      using Cons.prems(1) x by (simp add: Let_def)
    from Cons.IH [OF this] show ?thesis using Cons.prems(2,3,4) by simp
  next
    case False
    obtain c where c: "map_of (costs s) cur = Some c"
      using Cons.prems(1) x False by (auto simp: Let_def split: option.splits)
    obtain cn where cn: "map_of (costs s) nb = Some cn"
      using Cons.prems(1) x False c by (auto simp: Let_def split: option.splits)
    have "nb \<in> fst ` set (costs s)" using map_of_keys [OF cn] .
    moreover have "nb \<noteq> start" using False Cons.prems(4) by auto
    ultimately have nbN: "nb \<in> N" using Cons.prems(3) by auto
    let ?ec = "calculate_adaptive_cost vt h ((run_stats s)\<lparr>edges_examined := edges_examined (run_stats s) + 1,
                                explored_edges := explored_edges (run_stats s) @ [(cur, nb)]\<rparr>) cur nb bd md"
    show ?thesis
    proof (cases "fless (fadd c (fst ?ec)) cn")
      case True
      let ?s1 = "s\<lparr>costs := dict_set nb (fadd c (fst ?ec)) (costs s),
                    parents := dict_set nb (Some cur) (parents s),
                    pq := pq s @ [(fadd c (fst ?ec), nb)],
                    run_stats := snd ?ec\<rparr>"
      have "explore_neighbors vt h cur es ?s1 = Inr s'"
        using Cons.prems(1) x False c cn True by (simp add: Let_def)
      from Cons.IH [OF this] show ?thesis
        using Cons.prems(2,3,4) nbN by (simp add: dict_set_key_set)
    next
      case nl: False
      have "explore_neighbors vt h cur es (s\<lparr>run_stats := snd ?ec\<rparr>) = Inr s'"
        using Cons.prems(1) x False c cn nl by (simp add: Let_def)
      from Cons.IH [OF this] show ?thesis using Cons.prems(2,3,4) by simp
    qed
  qed
qed

lemma search_loop_unfold:
  "search_loop g vt h end_node s =
     (case pq s of
        [] \<Rightarrow> Inr s
      | x # xs \<Rightarrow>
          if snd (heap_min x xs) \<in> visited s then search_loop g vt h end_node (popped s x xs)
          else if snd (heap_min x xs) = end_node then Inr (settled s x xs)
          else (case explore_neighbors vt h (snd (heap_min x xs))
                       (get_neighbors g (snd (heap_min x xs))) (settled s x xs) of
                  Inl e \<Rightarrow> Inl e
                | Inr s3 \<Rightarrow> search_loop g vt h end_node s3))"
  by (subst search_loop.simps) (simp add: Let_def popped_def settled_def split: list.splits)

lemma search_loop_rule:
  assumes "I s"
    and "\<And>s. I s \<Longrightarrow> pq s = [] \<Longrightarrow> Q s"
    and "\<And>s x xs. I s \<Longrightarrow> pq s = x # xs \<Longrightarrow> snd (heap_min x xs) \<in> visited s
           \<Longrightarrow> I (popped s x xs)"
    and "\<And>s x xs. I s \<Longrightarrow> pq s = x # xs \<Longrightarrow> snd (heap_min x xs) \<notin> visited s
           \<Longrightarrow> snd (heap_min x xs) = end_node \<Longrightarrow> Q (settled s x xs)"
    and "\<And>s x xs e. I s \<Longrightarrow> pq s = x # xs \<Longrightarrow> snd (heap_min x xs) \<notin> visited s
           \<Longrightarrow> snd (heap_min x xs) \<noteq> end_node
           \<Longrightarrow> explore_neighbors vt h (snd (heap_min x xs))
                 (get_neighbors g (snd (heap_min x xs))) (settled s x xs) = Inl e
           \<Longrightarrow> E e"
    and "\<And>s x xs s3. I s \<Longrightarrow> pq s = x # xs \<Longrightarrow> snd (heap_min x xs) \<notin> visited s
           \<Longrightarrow> snd (heap_min x xs) \<noteq> end_node
           \<Longrightarrow> explore_neighbors vt h (snd (heap_min x xs))
                 (get_neighbors g (snd (heap_min x xs))) (settled s x xs) = Inr s3
           \<Longrightarrow> I s3"
  shows "case search_loop g vt h end_node s of Inl e \<Rightarrow> E e | Inr s' \<Rightarrow> Q s'"
proof -
  have "g' = g \<longrightarrow> vt' = vt \<longrightarrow> h' = h \<longrightarrow> e' = end_node \<longrightarrow> I s'
          \<longrightarrow> (case search_loop g vt h end_node s' of Inl e \<Rightarrow> E e | Inr s'' \<Rightarrow> Q s'')"
    for g' vt' h' e' s'
  proof (induction g' vt' h' e' s' rule: search_loop.induct)
    case (1 g' vt' h' e' s)
    show ?case
    proof (intro impI)
      assume eqs: "g' = g" "vt' = vt" "h' = h" "e' = end_node" and inv: "I s"
      show "case search_loop g vt h end_node s of Inl e \<Rightarrow> E e | Inr s'' \<Rightarrow> Q s''"
      proof (cases "pq s")
        case Nil
        then show ?thesis using assms(2) [OF inv] by (subst search_loop_unfold) simp
      next
        case (Cons x xs)
        let ?cur = "snd (heap_min x xs)"
        show ?thesis
        proof (cases "?cur \<in> visited s")
          case True
          have i: "I (popped s x xs)" using assms(3) [OF inv Cons True] .
          have v: "?cur \<in> visited (s\<lparr>pq := remove1 (heap_min x xs) (pq s)\<rparr>)"
            using True by simp
          have "case search_loop g vt h end_node (popped s x xs) of
                  Inl e \<Rightarrow> E e | Inr s'' \<Rightarrow> Q s''"
            using "1.IH"(1) [OF Cons refl refl v] eqs i by (simp add: popped_def)
          then show ?thesis using Cons True by (subst search_loop_unfold) simp
        next
          case False
          show ?thesis
          proof (cases "?cur = end_node")
            case True
            have "Q (settled s x xs)" using assms(4) [OF inv Cons False True] .
            then show ?thesis using Cons False True by (subst search_loop_unfold) simp
          next
            case ne: False
            show ?thesis
            proof (cases "explore_neighbors vt h ?cur (get_neighbors g ?cur) (settled s x xs)")
              case (Inl e)
              have "E e" using assms(5) [OF inv Cons False ne Inl] .
              then show ?thesis using Cons False ne Inl by (subst search_loop_unfold) simp
            next
              case (Inr s3)
              have i: "I s3" using assms(6) [OF inv Cons False ne Inr] .
              have v: "?cur \<notin> visited (s\<lparr>pq := remove1 (heap_min x xs) (pq s)\<rparr>)"
                using False by simp
              have n: "?cur \<noteq> e'" using ne eqs by simp
              have ex: "explore_neighbors vt' h' ?cur (get_neighbors g' ?cur)
                          ((s\<lparr>pq := remove1 (heap_min x xs) (pq s)\<rparr>)
                             \<lparr>visited := insert ?cur (visited (s\<lparr>pq := remove1 (heap_min x xs) (pq s)\<rparr>)),
                              run_stats := (run_stats (s\<lparr>pq := remove1 (heap_min x xs) (pq s)\<rparr>))
                                \<lparr>nodes_explored := nodes_explored (run_stats (s\<lparr>pq := remove1 (heap_min x xs) (pq s)\<rparr>)) + 1\<rparr>\<rparr>)
                        = Inr s3"
                using Inr eqs by (simp add: settled_def)
              have "case search_loop g vt h end_node s3 of
                      Inl e \<Rightarrow> E e | Inr s'' \<Rightarrow> Q s''"
                using "1.IH"(2) [OF Cons refl refl v refl n ex] eqs i by simp
              then show ?thesis using Cons False ne Inr by (subst search_loop_unfold) simp
            qed
          qed
        qed
      qed
    qed
  qed
  then show ?thesis using assms(1) by simp
qed

lemma init_cost_keys: "fst ` set (map (\<lambda>n. (n, v)) ns) = set ns"
  by (induction ns) auto

lemma heap_min_node: "snd (heap_min x xs) \<in> snd ` set (x # xs)"
  using heap_min_in [of x xs] by (rule imageI)

lemma remove1_nodes: "snd ` set (remove1 m ps) \<subseteq> snd ` set ps"
  using set_remove1_subset [of m ps] by blast

text \<open>
  C7, as the claim states it, fails: node 5 is not a node of the line graph, whose
  \<open>get_neighbors\<close> gives no neighbour for it, and \<open>find_optimal_path(5, 2)\<close> returns
  the no-path result (empty path, infinite cost) instead of failing.
\<close>

theorem unknown_start_gives_no_path:
  "5 \<notin> set (nodes line_graph)
   \<and> find_optimal_path line_graph ''boda'' Map.empty 5 2
       = Some (Inr ([], PInf, stats0\<lparr>nodes_explored := 1\<rparr>))"
  apply (simp add: find_optimal_path_def initial_state_def line_graph_def)
  apply (subst search_loop.simps, simp add: Let_def)
  apply (subst search_loop.simps, simp add: Let_def)
  apply (simp add: reconstruct_path_def stats0_def)
  done

lemma search_loop_parent_keys:
  "case search_loop g vt h end_node (initial_state g start) of
     Inl e \<Rightarrow> \<exists>k. e = KeyError k
   | Inr s' \<Rightarrow> fst ` set (parents s') \<subseteq> set (nodes g)"
proof (rule search_loop_rule [where I = "end_guard g start"
      and Q = "\<lambda>s'. fst ` set (parents s') \<subseteq> set (nodes g)"
      and E = "\<lambda>e. \<exists>k. e = KeyError k"], goal_cases)
  case 1
  show ?case by (auto simp: end_guard_def initial_state_def dict_set_key_set)
next
  case (2 s)
  then show ?case by (simp add: end_guard_def)
next
  case (3 s x xs)
  have sub: "snd ` set (remove1 (heap_min x xs) (pq s)) \<subseteq> snd ` set (pq s)"
    by (rule remove1_nodes)
  show ?case
  proof (cases "start \<in> visited s")
    case True
    then show ?thesis using 3(1) by (simp add: end_guard_def popped_def)
  next
    case False
    then have "snd ` set (pq s) \<subseteq> {start}" using 3(1) by (simp add: end_guard_def)
    then have "snd ` set (remove1 (heap_min x xs) (pq s)) \<subseteq> {start}"
      using sub by (rule order_trans [rotated])
    then show ?thesis using 3(1) by (simp add: end_guard_def popped_def)
  qed
next
  case (4 s x xs)
  then show ?case by (simp add: end_guard_def settled_def)
next
  case (5 s x xs e)
  show ?case using explore_neighbors_error [OF 5(5)] .
next
  case (6 s x xs s3)
  let ?cur = "snd (heap_min x xs)"
  have cur: "?cur \<in> snd ` set (pq s)" using heap_min_node [of x xs] 6(2) by simp
  have sv: "start \<in> visited (settled s x xs)"
  proof (cases "start \<in> visited s")
    case True
    then show ?thesis by (simp add: settled_def)
  next
    case False
    then have "snd ` set (pq s) \<subseteq> {start}" using 6(1) by (simp add: end_guard_def)
    then have "?cur = start" using cur by (rule subsetD [THEN singletonD])
    then show ?thesis by (simp add: settled_def)
  qed
  have pk: "fst ` set (parents (settled s x xs)) \<subseteq> set (nodes g)"
    using 6(1) by (simp add: end_guard_def settled_def)
  have ck: "fst ` set (costs (settled s x xs)) \<subseteq> insert start (set (nodes g))"
    using 6(1) by (simp add: end_guard_def settled_def)
  note fr = explore_neighbors_frame [OF 6(5)]
  have a: "fst ` set (parents s3) \<subseteq> set (nodes g)"
    using explore_neighbors_parent_keys [OF 6(5) pk ck sv] .
  have b: "fst ` set (costs s3) \<subseteq> insert start (set (nodes g))" using fr ck by simp
  have c: "start \<in> visited s3" using fr sv by simp
  show ?case using a b c by (simp add: end_guard_def)
qed

text \<open>
  C7, amended. The search validates neither node. When the end node is not a key of
  \<open>graph.nodes\<close>, the call never returns a result: it raises \<open>KeyError\<close> (from the
  cost table during the search, or from \<open>parents[end]\<close> in \<open>_reconstruct_path\<close>),
  for every start node and every graph.
\<close>

theorem unknown_end_raises_key_error:
  assumes "end_node \<notin> set (nodes g)"
  shows "\<exists>k. find_optimal_path g vehicle_type edge_history start end_node
               = Some (Inl (KeyError k))"
proof (cases "search_loop g vehicle_type edge_history end_node (initial_state g start)")
  case (Inl e)
  have "\<exists>k. e = KeyError k"
    using search_loop_parent_keys [of g vehicle_type edge_history end_node start]
    unfolding Inl by simp
  then obtain k where "e = KeyError k" ..
  then have "find_optimal_path g vehicle_type edge_history start end_node
               = Some (Inl (KeyError k))"
    unfolding find_optimal_path_def Inl by simp
  then show ?thesis ..
next
  case (Inr s')
  have "fst ` set (parents s') \<subseteq> set (nodes g)"
    using search_loop_parent_keys [of g vehicle_type edge_history end_node start]
    unfolding Inr by simp
  then have "end_node \<notin> fst ` set (parents s')" using assms by (rule contra_subsetD)
  then have n: "map_of (parents s') end_node = None" by (rule map_of_not_in_keys)
  have "find_optimal_path g vehicle_type edge_history start end_node
          = Some (Inl (KeyError end_node))"
    unfolding find_optimal_path_def Inr by (simp add: reconstruct_path_def n)
  then show ?thesis ..
qed

theorem unknown_end_raises_key_error_witness:
  "\<exists>k. find_optimal_path line_graph ''boda'' Map.empty 0 7 = Some (Inl (KeyError k))"
proof -
  have "(7::int) \<notin> set (nodes line_graph)" by (simp add: line_graph_def)
  then show ?thesis by (rule unknown_end_raises_key_error)
qed

lemma reachable_is_known:
  assumes "edges_closed g" and "(start, n) \<in> (edge_rel g)\<^sup>*"
  shows "n \<in> insert start (set (nodes g))"
  using assms(2)
proof (cases rule: rtranclE)
  case base
  then show ?thesis by simp
next
  case (step m)
  then have "n \<in> fst ` set (get_neighbors g m)" by (simp add: edge_rel_def)
  then show ?thesis using assms(1) by (auto simp: edges_closed_def)
qed

lemma neighbors_reachable:
  assumes "(start, cur) \<in> (edge_rel g)\<^sup>*"
  shows "fst ` set (get_neighbors g cur) \<subseteq> {n. (start, n) \<in> (edge_rel g)\<^sup>*}"
proof
  fix n assume "n \<in> fst ` set (get_neighbors g cur)"
  then have "(cur, n) \<in> edge_rel g" by (simp add: edge_rel_def)
  then have "(start, n) \<in> (edge_rel g)\<^sup>*" using assms by (rule rtrancl_into_rtrancl [rotated])
  then show "n \<in> {n. (start, n) \<in> (edge_rel g)\<^sup>*}" by simp
qed

lemma explore_neighbors_unreachable:
  assumes "fst ` set es \<subseteq> K" and "K \<subseteq> fst ` set (costs s)"
    and "cur \<in> fst ` set (costs s)" and "end_node \<notin> K"
  shows "\<exists>s'. explore_neighbors vt h cur es s = Inr s'
           \<and> snd ` set (pq s') \<subseteq> snd ` set (pq s) \<union> K
           \<and> map_of (parents s') end_node = map_of (parents s) end_node
           \<and> fst ` set (costs s') = fst ` set (costs s)"
  using assms
proof (induction es arbitrary: s)
  case Nil
  show ?case by simp
next
  case (Cons x es)
  obtain nb bd md where x: "x = (nb, bd, md)" by (cases x) auto
  have nbK: "nb \<in> K" using Cons.prems(1) x by simp
  have esK: "fst ` set es \<subseteq> K" using Cons.prems(1) by simp
  define st1 where "st1 = (run_stats s)\<lparr>edges_examined := edges_examined (run_stats s) + 1,
                 explored_edges := explored_edges (run_stats s) @ [(cur, nb)]\<rparr>"
  show ?case
  proof (cases "nb \<in> visited s")
    case True
    define s1 where "s1 = s\<lparr>run_stats := st1\<rparr>"
    have eq: "explore_neighbors vt h cur (x # es) s = explore_neighbors vt h cur es s1"
      using True x by (simp add: Let_def s1_def st1_def)
    have a: "K \<subseteq> fst ` set (costs s1)" using Cons.prems(2) by (simp add: s1_def)
    have b: "cur \<in> fst ` set (costs s1)" using Cons.prems(3) by (simp add: s1_def)
    obtain s' where s': "explore_neighbors vt h cur es s1 = Inr s'"
      and p: "snd ` set (pq s') \<subseteq> snd ` set (pq s1) \<union> K"
      and m: "map_of (parents s') end_node = map_of (parents s1) end_node"
      and k: "fst ` set (costs s') = fst ` set (costs s1)"
      using Cons.IH [OF esK a b Cons.prems(4)] by (elim exE conjE)
    show ?thesis
    proof (intro exI [of _ s'] conjI)
      show "explore_neighbors vt h cur (x # es) s = Inr s'" using eq s' by simp
      show "snd ` set (pq s') \<subseteq> snd ` set (pq s) \<union> K" using p by (simp add: s1_def)
      show "map_of (parents s') end_node = map_of (parents s) end_node"
        using m by (simp add: s1_def)
      show "fst ` set (costs s') = fst ` set (costs s)" using k by (simp add: s1_def)
    qed
  next
    case False
    obtain c where c: "map_of (costs s) cur = Some c"
      using map_of_in_keys [OF Cons.prems(3)] by (elim exE)
    have nk: "nb \<in> fst ` set (costs s)" using nbK Cons.prems(2) by (rule subsetD [rotated])
    obtain cn where cn: "map_of (costs s) nb = Some cn"
      using map_of_in_keys [OF nk] by (elim exE)
    have ne: "end_node \<noteq> nb" using nbK Cons.prems(4) by auto
    define ec where "ec = calculate_adaptive_cost vt h st1 cur nb bd md"
    show ?thesis
    proof (cases "fless (fadd c (fst ec)) cn")
      case True
      define s1 where "s1 = s\<lparr>costs := dict_set nb (fadd c (fst ec)) (costs s),
                    parents := dict_set nb (Some cur) (parents s),
                    pq := pq s @ [(fadd c (fst ec), nb)],
                    run_stats := snd ec\<rparr>"
      have eq: "explore_neighbors vt h cur (x # es) s = explore_neighbors vt h cur es s1"
        using False x c cn True by (simp add: Let_def s1_def ec_def st1_def)
      have k1: "fst ` set (costs s1) = fst ` set (costs s)"
        using nk by (simp add: dict_set_keys s1_def)
      have a: "K \<subseteq> fst ` set (costs s1)" using Cons.prems(2) unfolding k1 .
      have b: "cur \<in> fst ` set (costs s1)" using Cons.prems(3) unfolding k1 .
      obtain s' where s': "explore_neighbors vt h cur es s1 = Inr s'"
        and p: "snd ` set (pq s') \<subseteq> snd ` set (pq s1) \<union> K"
        and m: "map_of (parents s') end_node = map_of (parents s1) end_node"
        and k: "fst ` set (costs s') = fst ` set (costs s1)"
        using Cons.IH [OF esK a b Cons.prems(4)] by (elim exE conjE)
      have q1: "snd ` set (pq s1) \<subseteq> snd ` set (pq s) \<union> K"
        using nbK by (simp add: s1_def)
      have m1: "map_of (parents s1) end_node = map_of (parents s) end_node"
        using ne by (simp add: s1_def map_of_dict_set)
      show ?thesis
      proof (intro exI [of _ s'] conjI)
        show "explore_neighbors vt h cur (x # es) s = Inr s'" using eq s' by simp
        show "snd ` set (pq s') \<subseteq> snd ` set (pq s) \<union> K"
          using p q1 by (rule order_trans [OF _ Un_least [OF _ Un_upper2]])
        show "map_of (parents s') end_node = map_of (parents s) end_node"
          using m m1 by simp
        show "fst ` set (costs s') = fst ` set (costs s)" using k k1 by simp
      qed
    next
      case nl: False
      define s1 where "s1 = s\<lparr>run_stats := snd ec\<rparr>"
      have eq: "explore_neighbors vt h cur (x # es) s = explore_neighbors vt h cur es s1"
        using False x c cn nl by (simp add: Let_def s1_def ec_def st1_def)
      have a: "K \<subseteq> fst ` set (costs s1)" using Cons.prems(2) by (simp add: s1_def)
      have b: "cur \<in> fst ` set (costs s1)" using Cons.prems(3) by (simp add: s1_def)
      obtain s' where s': "explore_neighbors vt h cur es s1 = Inr s'"
        and p: "snd ` set (pq s') \<subseteq> snd ` set (pq s1) \<union> K"
        and m: "map_of (parents s') end_node = map_of (parents s1) end_node"
        and k: "fst ` set (costs s') = fst ` set (costs s1)"
        using Cons.IH [OF esK a b Cons.prems(4)] by (elim exE conjE)
      show ?thesis
      proof (intro exI [of _ s'] conjI)
        show "explore_neighbors vt h cur (x # es) s = Inr s'" using eq s' by simp
        show "snd ` set (pq s') \<subseteq> snd ` set (pq s) \<union> K" using p by (simp add: s1_def)
        show "map_of (parents s') end_node = map_of (parents s) end_node"
          using m by (simp add: s1_def)
        show "fst ` set (costs s') = fst ` set (costs s)" using k by (simp add: s1_def)
      qed
    qed
  qed
qed

lemma initial_cost_keys:
  "fst ` set (costs (initial_state g start)) = insert start (set (nodes g))"
proof -
  have "costs (initial_state g start)
          = dict_set start (Fin 0) (map (\<lambda>node_id. (node_id, PInf)) (nodes g))"
    by (simp add: initial_state_def)
  then show ?thesis
    by (simp only: dict_set_key_set init_cost_keys)
qed

lemma initial_parent: "n \<in> set (nodes g) \<Longrightarrow> map_of (parents (initial_state g start)) n = Some None"
  by (simp add: initial_state_def map_of_init_parents)

lemma initial_pq: "pq (initial_state g start) = [(Fin 0, start)]"
  by (simp add: initial_state_def)

lemma search_loop_unreachable:
  assumes closed: "edges_closed g" and un: "(start, end_node) \<notin> (edge_rel g)\<^sup>*"
    and inv: "goal_guard g start end_node s"
  shows "case search_loop g vt h end_node s of
           Inl e \<Rightarrow> False
         | Inr s' \<Rightarrow> insert start (set (nodes g)) \<subseteq> fst ` set (costs s')
                     \<and> map_of (parents s') end_node = Some None"
proof (rule search_loop_rule [where I = "goal_guard g start end_node"
      and Q = "\<lambda>s'. insert start (set (nodes g)) \<subseteq> fst ` set (costs s')
                     \<and> map_of (parents s') end_node = Some None"
      and E = "\<lambda>e. False"], goal_cases)
  case 1
  show ?case by (rule inv)
next
  case (2 s)
  then show ?case by (simp add: goal_guard_def)
next
  case (3 s x xs)
  have "snd ` set (remove1 (heap_min x xs) (pq s)) \<subseteq> snd ` set (pq s)"
    by (rule remove1_nodes)
  moreover have "snd ` set (pq s) \<subseteq> {n. (start, n) \<in> (edge_rel g)\<^sup>*}"
    using 3(1) by (simp add: goal_guard_def)
  ultimately have "snd ` set (remove1 (heap_min x xs) (pq s)) \<subseteq> {n. (start, n) \<in> (edge_rel g)\<^sup>*}"
    by (rule order_trans)
  then show ?case using 3(1) by (simp add: goal_guard_def popped_def)
next
  case (4 s x xs)
  have "snd (heap_min x xs) \<in> snd ` set (pq s)" using heap_min_node [of x xs] 4(2) by simp
  moreover have "snd ` set (pq s) \<subseteq> {n. (start, n) \<in> (edge_rel g)\<^sup>*}"
    using 4(1) by (simp add: goal_guard_def)
  ultimately have "snd (heap_min x xs) \<in> {n. (start, n) \<in> (edge_rel g)\<^sup>*}"
    by (rule subsetD [rotated])
  then have "(start, end_node) \<in> (edge_rel g)\<^sup>*" using 4(4) by simp
  then show ?case using un by simp
next
  case (5 s x xs e)
  let ?cur = "snd (heap_min x xs)"
  let ?K = "{n. (start, n) \<in> (edge_rel g)\<^sup>*}"
  have pqr: "snd ` set (pq s) \<subseteq> ?K" using 5(1) by (simp add: goal_guard_def)
  have "?cur \<in> snd ` set (pq s)" using heap_min_node [of x xs] 5(2) by simp
  then have cr: "?cur \<in> ?K" using pqr by (rule subsetD [rotated])
  then have cr': "(start, ?cur) \<in> (edge_rel g)\<^sup>*" by simp
  have keys: "insert start (set (nodes g)) \<subseteq> fst ` set (costs (settled s x xs))"
    using 5(1) by (simp add: goal_guard_def settled_def)
  have known: "?K \<subseteq> insert start (set (nodes g))"
    using reachable_is_known [OF closed] by auto
  have a: "fst ` set (get_neighbors g ?cur) \<subseteq> ?K" by (rule neighbors_reachable [OF cr'])
  have b: "?K \<subseteq> fst ` set (costs (settled s x xs))" using known keys by (rule order_trans)
  have c: "?cur \<in> fst ` set (costs (settled s x xs))" using cr b by (rule subsetD [rotated])
  have d: "end_node \<notin> ?K" using un by simp
  obtain s' where "explore_neighbors vt h ?cur (get_neighbors g ?cur) (settled s x xs) = Inr s'"
    using explore_neighbors_unreachable [OF a b c d, of vt h] by (elim exE conjE)
  then show ?case using 5(5) by simp
next
  case (6 s x xs s3)
  let ?cur = "snd (heap_min x xs)"
  let ?K = "{n. (start, n) \<in> (edge_rel g)\<^sup>*}"
  have pqr: "snd ` set (pq s) \<subseteq> ?K" using 6(1) by (simp add: goal_guard_def)
  have "?cur \<in> snd ` set (pq s)" using heap_min_node [of x xs] 6(2) by simp
  then have cr: "?cur \<in> ?K" using pqr by (rule subsetD [rotated])
  then have cr': "(start, ?cur) \<in> (edge_rel g)\<^sup>*" by simp
  have keys: "insert start (set (nodes g)) \<subseteq> fst ` set (costs (settled s x xs))"
    using 6(1) by (simp add: goal_guard_def settled_def)
  have known: "?K \<subseteq> insert start (set (nodes g))"
    using reachable_is_known [OF closed] by auto
  have a: "fst ` set (get_neighbors g ?cur) \<subseteq> ?K" by (rule neighbors_reachable [OF cr'])
  have b: "?K \<subseteq> fst ` set (costs (settled s x xs))" using known keys by (rule order_trans)
  have c: "?cur \<in> fst ` set (costs (settled s x xs))" using cr b by (rule subsetD [rotated])
  have d: "end_node \<notin> ?K" using un by simp
  obtain s' where s': "explore_neighbors vt h ?cur (get_neighbors g ?cur) (settled s x xs) = Inr s'"
    and p: "snd ` set (pq s') \<subseteq> snd ` set (pq (settled s x xs)) \<union> ?K"
    and m: "map_of (parents s') end_node = map_of (parents (settled s x xs)) end_node"
    and k: "fst ` set (costs s') = fst ` set (costs (settled s x xs))"
    using explore_neighbors_unreachable [OF a b c d, of vt h] by (elim exE conjE)
  have e: "s' = s3" using s' 6(5) by simp
  have "snd ` set (pq (settled s x xs)) \<subseteq> snd ` set (pq s)"
    by (simp add: settled_def remove1_nodes)
  then have "snd ` set (pq (settled s x xs)) \<subseteq> ?K" using pqr by (rule order_trans)
  then have "snd ` set (pq (settled s x xs)) \<union> ?K \<subseteq> ?K" by (rule Un_least) simp
  then have p3: "snd ` set (pq s3) \<subseteq> ?K" using p unfolding e by (rule order_trans [rotated])
  have m3: "map_of (parents s3) end_node = Some None"
    using m 6(1) unfolding e by (simp add: goal_guard_def settled_def)
  have k3: "insert start (set (nodes g)) \<subseteq> fst ` set (costs s3)"
    using keys k unfolding e by simp
  show ?case using p3 m3 k3 by (simp add: goal_guard_def)
qed

text \<open>
  C6. In a graph whose \<open>get_neighbors\<close> reports only nodes of the graph, when the end
  node is a node of the graph and is not reachable from the start node along the
  edges, \<open>find_optimal_path\<close> returns (it raises nothing, in the search or in the
  parent-link reconstruction) an empty path with total cost \<open>float('inf')\<close>: the end
  node never receives a parent link, and \<open>_reconstruct_path\<close> answers \<open>[]\<close> because
  \<open>parents[end]\<close> is \<open>None\<close> and the end is not the start.
\<close>

theorem unreachable_goal_gives_no_path:
  assumes "edges_closed g" and "end_node \<in> set (nodes g)"
    and "(start, end_node) \<notin> (edge_rel g)\<^sup>*"
  shows "\<exists>st. find_optimal_path g vehicle_type edge_history start end_node
                = Some (Inr ([], PInf, st))"
proof -
  have ne: "end_node \<noteq> start" using assms(3) by auto
  have init: "goal_guard g start end_node (initial_state g start)"
    using initial_parent [OF assms(2), of start]
    by (simp add: goal_guard_def initial_cost_keys initial_pq)
  note loop = search_loop_unreachable [OF assms(1,3) init, of vehicle_type edge_history]
  show ?thesis
  proof (cases "search_loop g vehicle_type edge_history end_node (initial_state g start)")
    case (Inl e)
    then show ?thesis using loop by simp
  next
    case (Inr s')
    have keys: "insert start (set (nodes g)) \<subseteq> fst ` set (costs s')"
      and par: "map_of (parents s') end_node = Some None"
      using loop unfolding Inr by simp_all
    have "end_node \<in> insert start (set (nodes g))" using assms(2) by simp
    then have ek: "end_node \<in> fst ` set (costs s')" using keys by (rule subsetD [rotated])
    obtain c where c: "map_of (costs s') end_node = Some c"
      using map_of_in_keys [OF ek] by (elim exE)
    have "find_optimal_path g vehicle_type edge_history start end_node
            = Some (Inr ([], PInf, run_stats s'))"
      unfolding find_optimal_path_def Inr using par ne c
      by (simp add: reconstruct_path_def)
    then show ?thesis ..
  qed
qed

lemma line_graph_closed: "edges_closed line_graph"
proof -
  have "fst ` set (get_neighbors line_graph u) \<subseteq> set (nodes line_graph)" for u
    by (cases "u = 0"; cases "u = 1") (simp_all add: line_graph_def)
  then show ?thesis by (simp add: edges_closed_def)
qed

lemma line_graph_no_way_back: "(2, 0) \<notin> (edge_rel line_graph)\<^sup>*"
proof
  assume "(2, 0) \<in> (edge_rel line_graph)\<^sup>*"
  then show False
    by (cases rule: converse_rtranclE) (simp_all add: edge_rel_def line_graph_def)
qed

theorem unreachable_goal_gives_no_path_witness:
  "\<exists>st. find_optimal_path line_graph ''boda'' Map.empty 2 0 = Some (Inr ([], PInf, st))"
proof -
  have n: "0 \<in> set (nodes line_graph)" by (simp add: line_graph_def)
  show ?thesis
    by (rule unreachable_goal_gives_no_path [OF line_graph_closed n line_graph_no_way_back])
qed

end
